theory Spec2Isabelle
  imports Complex_Main "HOL-Library.Word" "HOL-Library.Stream" "HOL-Library.Multiset"
    "HOL-Library.AList"
begin

section \<open>Sequence generation of \<open>reconai.data.sequencer\<close>\<close>

text \<open>
  The development embeds \<open>Sequencer.generate_sequences\<close> of
  \<open>src/reconai/data/sequencer.py\<close>. Python raises become values of \<open>error\<close>;
  a loop that need not end carries fuel and returns \<open>None\<close> when the fuel is used up,
  so every function below has three kinds of result: \<open>None\<close> (still running),
  \<open>Some (Inl e)\<close> (raised \<open>e\<close>) and \<open>Some (Inr v)\<close> (returned \<open>v\<close>).
\<close>

datatype error = AssertionError | ValueError | KeyError | IndexError | SliceSourceError

subsection \<open>numpy floats\<close>

text \<open>
  A float64 is a real number, an infinity or NaN. The special values are kept because
  numpy's division by zero returns an infinity (with a warning) where Python's would
  raise. The quality score of a candidate, the target and the distance between them are
  rounded to float64 after every operation (\<open>fl64\<close>, \<open>fl_add\<close>, \<open>np_sub\<close> below), since
  they are compared and sorted. The probabilities handed to \<open>choice\<close> are computed with
  the exact \<open>np_add\<close>, \<open>np_sum\<close> and \<open>np_div\<close>: the library accepts them within a
  tolerance that absorbs the rounding, and rounding changes neither their sign nor which of
  them are zero. Dividing 1 by a power of two, as \<open>quality\<close> does, is exact in float64.
\<close>

datatype npfloat = Fin real | PInf | NInf | NaN

fun np_neg :: "npfloat \<Rightarrow> npfloat" where
  "np_neg (Fin a) = Fin (- a)"
| "np_neg PInf = NInf"
| "np_neg NInf = PInf"
| "np_neg NaN = NaN"

fun np_add :: "npfloat \<Rightarrow> npfloat \<Rightarrow> npfloat" where
  "np_add (Fin a) (Fin b) = Fin (a + b)"
| "np_add (Fin a) PInf = PInf"
| "np_add (Fin a) NInf = NInf"
| "np_add PInf (Fin b) = PInf"
| "np_add PInf PInf = PInf"
| "np_add NInf (Fin b) = NInf"
| "np_add NInf NInf = NInf"
| "np_add PInf NInf = NaN"
| "np_add NInf PInf = NaN"
| "np_add NaN y = NaN"
| "np_add x NaN = NaN"

fun np_abs :: "npfloat \<Rightarrow> npfloat" where
  "np_abs (Fin a) = Fin \<bar>a\<bar>"
| "np_abs PInf = PInf"
| "np_abs NInf = PInf"
| "np_abs NaN = NaN"

text \<open>\<open>x < y\<close> on floats: every comparison with NaN is false.\<close>

fun np_less :: "npfloat \<Rightarrow> npfloat \<Rightarrow> bool" where
  "np_less (Fin a) (Fin b) = (a < b)"
| "np_less (Fin a) PInf = True"
| "np_less NInf (Fin b) = True"
| "np_less NInf PInf = True"
| "np_less x y = False"

text \<open>\<open>x / y\<close> on float arrays: no exception, the IEEE special values instead.\<close>

fun np_div :: "npfloat \<Rightarrow> npfloat \<Rightarrow> npfloat" where
  "np_div (Fin a) (Fin b) =
     (if b = 0 then (if a = 0 then NaN else if 0 < a then PInf else NInf) else Fin (a / b))"
| "np_div (Fin a) PInf = Fin 0"
| "np_div (Fin a) NInf = Fin 0"
| "np_div PInf (Fin b) = (if 0 \<le> b then PInf else NInf)"
| "np_div NInf (Fin b) = (if 0 \<le> b then NInf else PInf)"
| "np_div x y = NaN"

text \<open>\<open>x * b\<close> for a boolean \<open>b\<close> (the availability mask): an infinity times \<open>False\<close> is NaN.\<close>

fun np_mask :: "npfloat \<Rightarrow> bool \<Rightarrow> npfloat" where
  "np_mask x True = x"
| "np_mask (Fin a) False = Fin 0"
| "np_mask x False = NaN"

primrec np_sum :: "npfloat list \<Rightarrow> npfloat" where
  "np_sum [] = Fin 0"
| "np_sum (x # xs) = np_add x (np_sum xs)"

text \<open>\<open>np.round\<close>: to the nearest integer, a tie to the even one.\<close>

definition np_round :: "real \<Rightarrow> int" where
  "np_round x =
     (let f = \<lfloor>x\<rfloor>; d = x - of_int f
      in if d < 1 / 2 then f else if 1 / 2 < d then f + 1 else if even f then f else f + 1)"

text \<open>\<open>np.clip(x, lo, hi)\<close> is \<open>minimum(maximum(x, lo), hi)\<close>, also when \<open>hi < lo\<close>.\<close>

definition np_clip :: "'a::linorder \<Rightarrow> 'a \<Rightarrow> 'a \<Rightarrow> 'a" where
  "np_clip x lo hi = min (max x lo) hi"

text \<open>
  Rounding to float64: to the nearest number with a significand of 53 bits, a tie to the
  even significand. The range of the exponent is not bounded: there is no overflow to an
  infinity (a sum of qualities and a target stay below \<open>2^1024\<close> for every sequence
  length below it) and no subnormal range (where a sum or difference of floats and the
  product of a float and an integer are exact in float64 as well).
\<close>

text \<open>
  The exponent of a positive number \<open>x\<close>, the integer \<open>e\<close> with \<open>2^e \<le> x < 2^(e+1)\<close>, found
  by doubling or halving \<open>x\<close> until it lies between 1 and 2.
\<close>

function float_exponent :: "real \<Rightarrow> int" where
  "float_exponent x =
     (if x \<le> 0 then 0
      else if x < 1 then float_exponent (2 * x) - 1
      else if 2 \<le> x then float_exponent (x / 2) + 1
      else 0)"
  by pat_completeness auto
termination
proof (relation "measure (\<lambda>x. nat \<bar>\<lfloor>log 2 x\<rfloor>\<bar>)")
  show "wf (measure (\<lambda>x. nat \<bar>\<lfloor>log 2 x\<rfloor>\<bar>))" by simp
next
  fix x :: real
  assume "\<not> x \<le> 0" and "x < 1"
  then have x: "0 < x" "x < 1" by simp_all
  then have "log 2 x < 0" by simp
  then have f: "\<lfloor>log 2 x\<rfloor> \<le> - 1" by linarith
  have "log 2 (2 * x) = 1 + log 2 x" using x by (simp add: log_mult)
  then have "\<lfloor>log 2 (2 * x)\<rfloor> = 1 + \<lfloor>log 2 x\<rfloor>" by simp
  with f show "(2 * x, x) \<in> measure (\<lambda>x. nat \<bar>\<lfloor>log 2 x\<rfloor>\<bar>)" by simp
next
  fix x :: real
  assume "\<not> x \<le> 0" and "\<not> x < 1" and "2 \<le> x"
  then have x: "0 < x" "2 \<le> x" by simp_all
  then have "1 \<le> log 2 x" by (simp add: le_log_iff)
  then have f: "1 \<le> \<lfloor>log 2 x\<rfloor>" by linarith
  have "log 2 (x / 2) = log 2 x - 1" using x by (simp add: log_divide)
  then have "\<lfloor>log 2 (x / 2)\<rfloor> = \<lfloor>log 2 x\<rfloor> - 1" by simp
  with f show "(x / 2, x) \<in> measure (\<lambda>x. nat \<bar>\<lfloor>log 2 x\<rfloor>\<bar>)" by simp
qed

declare float_exponent.simps [simp del]

text \<open>\<open>2^e\<close> for an integer \<open>e\<close>.\<close>

definition pow2 :: "int \<Rightarrow> real" where
  "pow2 e = (if 0 \<le> e then 2 ^ nat e else 1 / 2 ^ nat (- e))"

text \<open>The significand is scaled to an integer of 53 bits, rounded and scaled back.\<close>

definition fl64 :: "real \<Rightarrow> real" where
  "fl64 x =
     (if x = 0 then 0
      else let e = float_exponent \<bar>x\<bar> - 52
           in of_int (np_round (x / pow2 e)) * pow2 e)"

text \<open>\<open>x + y\<close> and \<open>x - y\<close> on floats, rounded.\<close>

fun fl_add :: "npfloat \<Rightarrow> npfloat \<Rightarrow> npfloat" where
  "fl_add (Fin a) (Fin b) = Fin (fl64 (a + b))"
| "fl_add x y = np_add x y"

definition np_sub :: "npfloat \<Rightarrow> npfloat \<Rightarrow> npfloat" where
  "np_sub x y = fl_add x (np_neg y)"

text \<open>
  \<open>a.sum()\<close> on a float array is numpy's pairwise summation added to the initial 0:
  fewer than 8 elements are added from left to right; up to 128 elements are added in 8
  interleaved accumulators that are then combined, the elements beyond the last multiple
  of 8 being added last; longer arrays are split in two near the middle, at a multiple
  of 8.
\<close>

function pairwise_sum :: "npfloat list \<Rightarrow> npfloat" where
  "pairwise_sum a =
     (if length a < 8 then foldl fl_add (Fin 0) a
      else if length a \<le> 128 then
        (let m = length a - length a mod 8;
             r = map (\<lambda>j. foldl fl_add (a ! j) (map (\<lambda>i. a ! (8 * i + j)) [1..<m div 8])) [0..<8];
             res = fl_add (fl_add (fl_add (r ! 0) (r ! 1)) (fl_add (r ! 2) (r ! 3)))
                     (fl_add (fl_add (r ! 4) (r ! 5)) (fl_add (r ! 6) (r ! 7)))
         in foldl fl_add res (drop m a))
      else
        (let n2 = length a div 2 - (length a div 2) mod 8
         in fl_add (pairwise_sum (take n2 a)) (pairwise_sum (drop n2 a))))"
  by pat_completeness auto
termination
proof (relation "measure length")
  show "wf (measure length)" by simp
next
  fix a :: "npfloat list" and x
  assume "\<not> length a \<le> 128" and x: "x = length a div 2 - length a div 2 mod 8"
  then have "x < length a" by linarith
  then show "(take x a, a) \<in> measure length" by simp
next
  fix a :: "npfloat list" and x
  assume l: "\<not> length a \<le> 128" and x: "x = length a div 2 - length a div 2 mod 8"
  have "length a div 2 mod 8 < 8" by simp
  moreover have "64 \<le> length a div 2" using l by linarith
  ultimately have "0 < x" unfolding x by linarith
  then show "(drop x a, a) \<in> measure length" using l by simp
qed

declare pairwise_sum.simps [simp del]

definition array_sum :: "npfloat list \<Rightarrow> npfloat" where
  "array_sum a = fl_add (Fin 0) (pairwise_sum a)"

subsection \<open>The quality of a slice\<close>

text \<open>
  \<open>slices[m]\<close> is an int64 array, so \<open>np.power(2, np.abs(slices[m] - 2))\<close> is computed
  in 64-bit integers and wraps.
\<close>

definition np_power2 :: "nat \<Rightarrow> int" where
  "np_power2 x = sint ((2 :: 64 word) ^ x)"

definition quality :: "nat \<Rightarrow> npfloat" where
  "quality i = np_div (Fin 1) (Fin (of_int (np_power2 (nat \<bar>int i - 2\<bar>))))"

subsection \<open>The random generator\<close>

text \<open>
  \<open>numpy.random.Generator\<close> is outside the repository. Its state is modelled as the
  values it is going to return: the standard normal deviates of \<open>r.normal\<close> and the raw
  numbers that decide which positions \<open>r.choice\<close> picks. Every behaviour of the library is
  the behaviour of some such state.
\<close>

record rng =
  normals :: "real stream"
  uniforms :: "nat stream"

definition normal :: "real \<Rightarrow> rng \<Rightarrow> real \<times> rng" where
  "normal loc g = (loc + shd (normals g), g\<lparr>normals := stl (normals g)\<rparr>)"

fun pick_distinct :: "nat \<Rightarrow> nat list \<Rightarrow> nat stream \<Rightarrow> nat list \<times> nat stream" where
  "pick_distinct 0 cands u = ([], u)"
| "pick_distinct (Suc n) cands u =
     (if cands = [] then ([], u)
      else let x = cands ! (shd u mod length cands);
               rest = pick_distinct n (remove1 x cands) (stl u)
           in (x # fst rest, snd rest))"

text \<open>
  \<open>Generator.choice(a, size, replace=False, p)\<close>: the checks of the library in their
  order (a NaN among the probabilities, a negative probability, a sum that is not 1, a sample
  larger than the population, a negative size, fewer positive probabilities than \<open>size\<close>),
  each raising \<open>ValueError\<close>; then \<open>size\<close> distinct positions of positive probability,
  picked as the raw numbers of the generator decide. The sum is compared with 1 exactly:
  the probabilities are exact here, and the tolerance of the library only absorbs their
  rounding.
\<close>

definition choice :: "nat list \<Rightarrow> int \<Rightarrow> npfloat list \<Rightarrow> rng \<Rightarrow> error + (nat list \<times> rng)" where
  "choice a sz p g =
     (if length p \<noteq> length a then Inl ValueError
      else if np_sum p = NaN then Inl ValueError
      else if list_ex (\<lambda>x. np_less x (Fin 0)) p then Inl ValueError
      else if np_sum p \<noteq> Fin 1 then Inl ValueError
      else if int (length a) < sz then Inl ValueError
      else if sz < 0 then Inl ValueError
      else if int (length (filter (\<lambda>x. np_less (Fin 0) x) p)) < sz then Inl ValueError
      else let support = filter (\<lambda>i. np_less (Fin 0) (p ! i)) [0..<length a];
               picked = pick_distinct (nat sz) support (uniforms g)
           in Inr (map (\<lambda>i. a ! i) (fst picked), g\<lparr>uniforms := snd picked\<rparr>))"

subsection \<open>Candidate generation\<close>

record params =
  seq_len :: int
  mean_slices_per_mha :: real
  max_slices_per_mha :: int

text \<open>
  A dictionary keyed by \<open>range(len(shapes))\<close> is a list; \<open>c_sequence\<close> is a dictionary in
  insertion order whose key \<open>f'{loop}_{m}'\<close> is the pair \<open>(loop, m)\<close>.
\<close>

type_synonym pool = "nat list list"
type_synonym seq_dict = "((nat \<times> nat) \<times> nat list) list"

record sequence =
  case_id :: string
  entries :: seq_dict

definition len_of_values :: "('k \<times> 'a list) list \<Rightarrow> nat" where
  "len_of_values obj = sum_list (map (\<lambda>x. length (snd x)) obj)"

definition len_of_pool :: "pool \<Rightarrow> nat" where
  "len_of_pool obj = sum_list (map length obj)"

text \<open>The variables of the candidate loop: \<open>cur_m\<close> is \<open>m\<close>, \<open>cur_loop\<close> is \<open>loop\<close>, \<open>gen\<close> is \<open>r\<close>.\<close>

record cstate =
  c_quality :: npfloat
  c_sequence :: seq_dict
  c_available :: pool
  cur_m :: nat
  cur_loop :: nat
  gen :: rng

definition n_slices_of :: "params \<Rightarrow> nat \<Rightarrow> nat \<Rightarrow> real \<Rightarrow> int" where
  "n_slices_of P m_available_slices c_sequence_len x =
     (let max_n_slices = min (int m_available_slices)
            (min (max_slices_per_mha P) (seq_len P - int c_sequence_len))
      in np_clip (np_round x) 0 max_n_slices)"

text \<open>\<open>list.remove\<close> for each selected slice; it raises when the value is absent.\<close>

fun remove_all :: "nat list \<Rightarrow> nat list \<Rightarrow> error + nat list" where
  "remove_all [] xs = Inr xs"
| "remove_all (s # ss) xs =
     (if s \<in> set xs then remove_all ss (remove1 s xs) else Inl ValueError)"

definition dict_get :: "seq_dict \<Rightarrow> nat \<times> nat \<Rightarrow> nat list" where
  "dict_get d k = (case map_of d k of None \<Rightarrow> [] | Some v \<Rightarrow> v)"

text \<open>
  The body of \<open>if m_available_slices > 0\<close>. When \<open>n_slices == 1\<close> the weights \<open>m_p\<close> are
  the array \<open>m_quality\<close> itself, so masking them in place masks \<open>m_quality\<close> too.
\<close>

definition sample :: "params \<Rightarrow> pool \<Rightarrow> cstate \<Rightarrow> error + cstate" where
  "sample P slices s =
     (let avail = c_available s ! cur_m s;
          c_sequence_len = len_of_values (c_sequence s);
          drawn = normal (mean_slices_per_mha P) (gen s);
          n_slices = n_slices_of P (length avail) c_sequence_len (fst drawn);
          m_quality = map quality (slices ! cur_m s);
          ones = map (\<lambda>x. Fin 1) (slices ! cur_m s);
          m_p = map2 np_mask (if n_slices = 1 then m_quality else ones)
                  (map (\<lambda>x. x \<in> set avail) (slices ! cur_m s));
          m_quality' = (if n_slices = 1 then m_p else m_quality)
      in case choice (slices ! cur_m s) n_slices (map (\<lambda>w. np_div w (np_sum m_p)) m_p)
                (snd drawn) of
           Inl e \<Rightarrow> Inl e
         | Inr (selected_slices, g) \<Rightarrow>
             (case remove_all selected_slices avail of
                Inl e \<Rightarrow> Inl e
              | Inr avail' \<Rightarrow>
                  Inr (s\<lparr>c_quality :=
                          fl_add (c_quality s)
                            (array_sum (map (\<lambda>i. m_quality' ! i) selected_slices)),
                        c_sequence :=
                          AList.update (cur_loop s, cur_m s)
                            (dict_get (c_sequence s) (cur_loop s, cur_m s) @ selected_slices)
                            (c_sequence s),
                        c_available := (c_available s)[cur_m s := avail'],
                        gen := g\<rparr>)))"

definition advance :: "cstate \<Rightarrow> cstate" where
  "advance s =
     (let m' = (cur_m s + 1) mod length (c_available s)
      in s\<lparr>cur_m := m', cur_loop := (if m' = 0 then cur_loop s + 1 else cur_loop s)\<rparr>)"

text \<open>The loop \<open>while len_of_values(c_sequence) < seq_len\<close>, one unit of fuel per test.\<close>

fun while_candidate :: "nat \<Rightarrow> params \<Rightarrow> pool \<Rightarrow> cstate \<Rightarrow> (error + cstate) option" where
  "while_candidate 0 P slices s = None"
| "while_candidate (Suc fuel) P slices s =
     (if int (len_of_values (c_sequence s)) < seq_len P then
        (if cur_m s < length (c_available s) then
           (case (if 0 < length (c_available s ! cur_m s) then sample P slices s else Inr s) of
              Inl e \<Rightarrow> Some (Inl e)
            | Inr s' \<Rightarrow> while_candidate fuel P slices (advance s'))
         else Some (Inl KeyError))
      else Some (Inr s))"

type_synonym candidate = "npfloat \<times> sequence \<times> pool"

text \<open>One pass of the body of \<open>for _ in range(100)\<close>, with the assertion after the loop.\<close>

definition generate_candidate ::
  "nat \<Rightarrow> params \<Rightarrow> pool \<Rightarrow> string \<Rightarrow> pool \<Rightarrow> rng \<Rightarrow> (error + (candidate \<times> rng)) option" where
  "generate_candidate fuel P slices c available g =
     (case while_candidate fuel P slices
             \<lparr>c_quality = Fin 0, c_sequence = [], c_available = available,
              cur_m = 0, cur_loop = 0, gen = g\<rparr> of
        None \<Rightarrow> None
      | Some (Inl e) \<Rightarrow> Some (Inl e)
      | Some (Inr s) \<Rightarrow>
          (if int (len_of_values (c_sequence s)) = seq_len P
           then Some (Inr ((c_quality s, \<lparr>case_id = c, entries = c_sequence s\<rparr>, c_available s),
                           gen s))
           else Some (Inl AssertionError)))"

fun candidates ::
  "nat \<Rightarrow> nat \<Rightarrow> params \<Rightarrow> pool \<Rightarrow> string \<Rightarrow> pool \<Rightarrow> rng \<Rightarrow> (error + (candidate list \<times> rng)) option"
  where
  "candidates 0 fuel P slices c available g = Some (Inr ([], g))"
| "candidates (Suc k) fuel P slices c available g =
     (case generate_candidate fuel P slices c available g of
        None \<Rightarrow> None
      | Some (Inl e) \<Rightarrow> Some (Inl e)
      | Some (Inr (cand, g')) \<Rightarrow>
          (case candidates k fuel P slices c available g' of
             None \<Rightarrow> None
           | Some (Inl e) \<Rightarrow> Some (Inl e)
           | Some (Inr (cands, g'')) \<Rightarrow> Some (Inr (cand # cands, g''))))"

subsection \<open>The greedy selection\<close>

text \<open>
  \<open>list.sort(key=...)\<close> is stable and compares keys with \<open><\<close> only: an element moves in
  front of another exactly when its key is smaller.
\<close>

fun insort_by :: "('a \<Rightarrow> npfloat) \<Rightarrow> 'a \<Rightarrow> 'a list \<Rightarrow> 'a list" where
  "insort_by f x [] = [x]"
| "insort_by f x (y # ys) =
     (if np_less (f y) (f x) then y # insort_by f x ys else x # y # ys)"

definition sort_by :: "('a \<Rightarrow> npfloat) \<Rightarrow> 'a list \<Rightarrow> 'a list" where
  "sort_by f xs = foldr (insort_by f) xs []"

definition distance :: "real \<Rightarrow> candidate \<Rightarrow> npfloat" where
  "distance q c = np_abs (np_sub (Fin q) (fst c))"

text \<open>The loop \<open>while True\<close> of one case; \<open>fuel\<close> bounds its rounds, \<open>ifuel\<close> each candidate loop.\<close>

fun greedy ::
  "nat \<Rightarrow> nat \<Rightarrow> params \<Rightarrow> real \<Rightarrow> pool \<Rightarrow> string \<Rightarrow> pool \<Rightarrow> sequence list \<Rightarrow> rng
     \<Rightarrow> (error + sequence list) option" where
  "greedy 0 ifuel P q slices c available sequences g = None"
| "greedy (Suc fuel) ifuel P q slices c available sequences g =
     (if int (len_of_pool available) < seq_len P then Some (Inr sequences)
      else
        (case candidates 100 ifuel P slices c available g of
           None \<Rightarrow> None
         | Some (Inl e) \<Rightarrow> Some (Inl e)
         | Some (Inr (sequence_candidates, g')) \<Rightarrow>
             (case sort_by (distance q) sequence_candidates of
                [] \<Rightarrow> Some (Inl IndexError)
              | best # rest \<Rightarrow>
                  (if np_less (fst best) (Fin q) then Some (Inr sequences)
                   else greedy fuel ifuel P q slices c (snd (snd best))
                          (sequences @ [fst (snd best)]) g'))))"

subsection \<open>One task per case\<close>

text \<open>
  The Slice Source is a parameter: \<open>keys\<close> is the result of \<open>dataloader.keys()\<close> and
  \<open>shapes c\<close> the first dimension of each entry of \<open>dataloader.shapes(c)\<close>, or \<open>None\<close>
  when the lookup raises.
\<close>

definition initial_pool :: "int list \<Rightarrow> pool" where
  "initial_pool shp = map (\<lambda>k. [0..<nat k]) shp"

text \<open>
  \<open>np.clip(q, 0, 1) * seq_len\<close>. The argument \<open>q\<close> is a float: a number that is not a
  float64, such as the literal \<open>0.3\<close>, is rounded when Python reads it. The integer
  \<open>seq_len\<close> is converted to a float and the product is rounded.
\<close>

definition target :: "real \<Rightarrow> int \<Rightarrow> real" where
  "target q sl = fl64 (np_clip (fl64 q) 0 1 * fl64 (of_int sl))"

definition seeds :: "int \<Rightarrow> string list \<Rightarrow> (string \<rightharpoonup> int)" where
  "seeds seed keys =
     fold (\<lambda>(s, c) d. d(c \<mapsto> seed + int s)) (zip [0..<length keys] keys) Map.empty"

text \<open>
  \<open>default_rng\<close> maps a seed to a generator; \<open>fresh c\<close> is the generator that
  \<open>default_rng(None)\<close> hands to the task of \<open>c\<close> from the entropy of the system.
\<close>

definition generate_case ::
  "nat \<Rightarrow> (int \<Rightarrow> rng) \<Rightarrow> (string \<Rightarrow> rng) \<Rightarrow> (string \<Rightarrow> int list option) \<Rightarrow> string list
     \<Rightarrow> int \<Rightarrow> params \<Rightarrow> real \<Rightarrow> string \<Rightarrow> (error + sequence list) option" where
  "generate_case fuel default_rng fresh shapes keys seed P q c =
     (case (if 0 \<le> seed
            then (case seeds seed keys c of None \<Rightarrow> Inl KeyError | Some sd \<Rightarrow> Inr (default_rng sd))
            else Inr (fresh c)) of
        Inl e \<Rightarrow> Some (Inl e)
      | Inr g \<Rightarrow>
          (case shapes c of
             None \<Rightarrow> Some (Inl SliceSourceError)
           | Some shp \<Rightarrow>
               greedy fuel fuel P (target q (seq_len P)) (initial_pool shp) c (initial_pool shp) [] g))"

subsection \<open>The scheduler\<close>

text \<open>
  The thread pool runs one task per entry of \<open>keys\<close>. \<open>order\<close> is the order in which
  \<open>as_completed\<close> yields the futures (positions in \<open>keys\<close>); \<open>future.result()\<close> raises
  what the task raised, and leaving the \<open>with\<close> block waits for every task.
\<close>

fun collect ::
  "(string \<rightharpoonup> sequence list) \<Rightarrow> (string \<times> (error + sequence list)) list
     \<Rightarrow> error + (string \<rightharpoonup> sequence list)" where
  "collect coll [] = Inr coll"
| "collect coll ((key, res) # rest) =
     (case res of Inl e \<Rightarrow> Inl e | Inr seqs \<Rightarrow> collect (coll(key \<mapsto> seqs)) rest)"

definition generate_sequences ::
  "nat \<Rightarrow> (int \<Rightarrow> rng) \<Rightarrow> (string \<Rightarrow> rng) \<Rightarrow> nat list \<Rightarrow> (string \<Rightarrow> int list option) \<Rightarrow> string list
     \<Rightarrow> int \<Rightarrow> params \<Rightarrow> real \<Rightarrow> (error + (string \<rightharpoonup> sequence list)) option" where
  "generate_sequences fuel default_rng fresh order shapes keys seed P q =
     (let tasks = map (generate_case fuel default_rng fresh shapes keys seed P q) keys
      in if list_ex (\<lambda>t. t = None) tasks then None
         else Some (collect Map.empty (map (\<lambda>i. (keys ! i, the (tasks ! i))) order)))"

subsection \<open>Notions used in the statements\<close>

text \<open>The slice indices that a sequence dictionary holds for modality \<open>mm\<close>, in order.\<close>

definition indices :: "nat \<Rightarrow> seq_dict \<Rightarrow> nat list" where
  "indices mm d = concat (map snd (filter (\<lambda>e. snd (fst e) = mm) d))"

text \<open>The same over a list of accepted sequences.\<close>

definition all_indices :: "nat \<Rightarrow> sequence list \<Rightarrow> nat list" where
  "all_indices mm seqs = concat (map (\<lambda>sq. indices mm (entries sq)) seqs)"


text \<open>The pool of modality \<open>mm\<close>; empty for a modality the case does not have.\<close>

definition pool_at :: "pool \<Rightarrow> nat \<Rightarrow> nat list" where
  "pool_at pl mm = (if mm < length pl then pl ! mm else [])"

text \<open>The weight vector \<open>m_p\<close> of \<open>sample\<close> and the count \<open>n_slices\<close> it draws.\<close>

definition weights :: "int \<Rightarrow> nat list \<Rightarrow> nat list \<Rightarrow> npfloat list" where
  "weights n sl avail =
     map2 np_mask (if n = 1 then map quality sl else map (\<lambda>x. Fin 1) sl)
       (map (\<lambda>x. x \<in> set avail) sl)"

definition drawn_n :: "params \<Rightarrow> cstate \<Rightarrow> int" where
  "drawn_n P s = n_slices_of P (length (c_available s ! cur_m s)) (len_of_values (c_sequence s))
                  (mean_slices_per_mha P + shd (normals (gen s)))"

text \<open>\<open>order\<close> lists every future exactly once.\<close>

definition completion_order :: "string list \<Rightarrow> nat list \<Rightarrow> bool" where
  "completion_order keys order \<longleftrightarrow> mset order = mset [0..<length keys]"

text \<open>\<open>x <= y\<close> on floats, and the floats a quality can be: a real number or \<open>+inf\<close>.\<close>

definition np_le :: "npfloat \<Rightarrow> npfloat \<Rightarrow> bool" where
  "np_le x y \<longleftrightarrow> np_less x y \<or> (x = y \<and> x \<noteq> NaN)"

definition np_ok :: "npfloat \<Rightarrow> bool" where
  "np_ok v \<longleftrightarrow> v \<noteq> NaN \<and> v \<noteq> NInf"

text \<open>
  Closeness to the target \<open>q\<close>, for the qualities a candidate can have. The distance of
  a finite quality \<open>a\<close> is \<open>|q - a|\<close> with the difference rounded to float64, as every
  float64 difference is; an infinite quality is farther than every finite one.
  \<open>no_farther q x y\<close>: \<open>x\<close> is at least as close to \<open>q\<close> as \<open>y\<close> is;
  \<open>nearer q x y\<close>: \<open>x\<close> is strictly closer.
\<close>

fun no_farther :: "real \<Rightarrow> npfloat \<Rightarrow> npfloat \<Rightarrow> bool" where
  "no_farther q (Fin a) (Fin b) = (\<bar>fl64 (q - a)\<bar> \<le> \<bar>fl64 (q - b)\<bar>)"
| "no_farther q (Fin a) PInf = True"
| "no_farther q PInf PInf = True"
| "no_farther q x y = False"

fun nearer :: "real \<Rightarrow> npfloat \<Rightarrow> npfloat \<Rightarrow> bool" where
  "nearer q (Fin a) (Fin b) = (\<bar>fl64 (q - a)\<bar> < \<bar>fl64 (q - b)\<bar>)"
| "nearer q (Fin a) PInf = True"
| "nearer q x y = False"

text \<open>
  The quality the docstring describes, \<open>1 / 2^x\<close> for a slice \<open>x\<close> steps away from slice 2,
  and its sum over a list of slices.
\<close>

definition qval :: "nat \<Rightarrow> real" where
  "qval i = 1 / 2 ^ nat \<bar>int i - 2\<bar>"




subsection \<open>Example inputs\<close>

text \<open>
  A generator whose draws are all zero, sequences of length one, and a Slice Source with
  a case \<open>a\<close> of one modality of two slices and a case \<open>b\<close> of one empty modality. The
  run on case \<open>a\<close> accepts \<open>ex_seq1\<close>, then \<open>ex_seq2\<close>.
\<close>

definition ex_rng :: rng where
  "ex_rng = \<lparr>normals = sconst 0, uniforms = sconst 0\<rparr>"

text \<open>The same generator, except that its first choice picks the second position.\<close>

definition ex_rng' :: rng where
  "ex_rng' = \<lparr>normals = sconst 0, uniforms = 1 ## sconst 0\<rparr>"

definition ex_P :: params where
  "ex_P = \<lparr>seq_len = 1, mean_slices_per_mha = 2, max_slices_per_mha = 3\<rparr>"

definition ex_shapes :: "string \<Rightarrow> int list option" where
  "ex_shapes c = (if c = ''a'' then Some [2] else if c = ''b'' then Some [0] else None)"

definition ex_seq1 :: sequence where
  "ex_seq1 = \<lparr>case_id = ''a'', entries = [((0, 0), [0])]\<rparr>"

definition ex_seq2 :: sequence where
  "ex_seq2 = \<lparr>case_id = ''a'', entries = [((0, 0), [1])]\<rparr>"

text \<open>
  The defaults of the signature, the parameters of the scenario with five slices, and a
  generator whose normal deviates are all \<open>-1\<close>.
\<close>

definition default_P :: params where
  "default_P = \<lparr>seq_len = 15, mean_slices_per_mha = 2, max_slices_per_mha = 3\<rparr>"


definition low_rng :: rng where
  "low_rng = \<lparr>normals = sconst (- 1), uniforms = sconst 0\<rparr>"

section \<open>Lemmas\<close>

subsection \<open>Rounding to float64\<close>

lemma np_round_of_int [simp]: "np_round (of_int n) = n"
  by (simp add: np_round_def)



lemma float_exponent_eq: "0 < x \<Longrightarrow> float_exponent x = \<lfloor>log 2 x\<rfloor>"
proof (induction x rule: float_exponent.induct)
  case (1 x)
  show ?case
  proof (cases "x < 1")
    case True
    have "log 2 (2 * x) = 1 + log 2 x" using "1.prems" by (simp add: log_mult)
    then have "\<lfloor>log 2 (2 * x)\<rfloor> = 1 + \<lfloor>log 2 x\<rfloor>" by simp
    moreover have "float_exponent (2 * x) = \<lfloor>log 2 (2 * x)\<rfloor>"
      using "1.IH"(1) "1.prems" True by simp
    ultimately show ?thesis
      using "1.prems" True by (subst float_exponent.simps) simp
  next
    case ge: False
    show ?thesis
    proof (cases "2 \<le> x")
      case True
      have "log 2 (x / 2) = log 2 x - 1" using "1.prems" by (simp add: log_divide)
      then have "\<lfloor>log 2 (x / 2)\<rfloor> = \<lfloor>log 2 x\<rfloor> - 1" by simp
      moreover have "float_exponent (x / 2) = \<lfloor>log 2 (x / 2)\<rfloor>"
        using "1.IH"(2) "1.prems" ge True by simp
      ultimately show ?thesis
        using "1.prems" ge True by (subst float_exponent.simps) simp
    next
      case False
      with ge have "1 \<le> x" "x < 2" by simp_all
      then have "0 \<le> log 2 x" "log 2 x < 1" by (simp_all add: log_less_iff)
      then have "\<lfloor>log 2 x\<rfloor> = 0" by linarith
      then show ?thesis
        using "1.prems" ge False by (subst float_exponent.simps) simp
    qed
  qed
qed

lemma pow2_powr: "pow2 e = 2 powr of_int e"
proof (cases "0 \<le> e")
  case True
  then have "(2::real) powr of_int e = 2 powr real (nat e)" by simp
  also have "\<dots> = 2 ^ nat e" by (rule powr_realpow) simp
  finally show ?thesis using True by (simp add: pow2_def)
next
  case False
  then have "(2::real) powr of_int e = 2 powr (- real (nat (- e)))" by simp
  also have "\<dots> = 1 / 2 powr real (nat (- e))" by (simp add: powr_minus divide_inverse)
  also have "2 powr real (nat (- e)) = (2::real) ^ nat (- e)" by (rule powr_realpow) simp
  finally show ?thesis using False by (simp add: pow2_def)
qed

lemma fl64_log:
  "fl64 x =
     (if x = 0 then 0
      else let e = \<lfloor>log 2 \<bar>x\<bar>\<rfloor> - 52
           in of_int (np_round (x / 2 powr of_int e)) * 2 powr of_int e)"
  by (simp add: fl64_def float_exponent_eq pow2_powr Let_def del: of_int_diff)

lemma fl64_exact:
  assumes "\<bar>m\<bar> < 2 ^ 53"
  shows "fl64 (of_int m * 2 powr of_int z) = of_int m * 2 powr of_int z"
proof (cases "m = 0")
  case True
  then show ?thesis by (simp add: fl64_log)
next
  case False
  define x :: real where "x = of_int m * 2 powr of_int z"
  define E where "E = \<lfloor>log 2 \<bar>x\<bar>\<rfloor>"
  have xne: "x \<noteq> 0" using False by (simp add: x_def)
  then have xpos: "0 < \<bar>x\<bar>" by simp
  have "2 powr of_int E \<le> \<bar>x\<bar>"
    using floor_log_eq_powr_iff[of "\<bar>x\<bar>" 2 E] xpos by (simp add: E_def)
  also have "\<bar>x\<bar> = of_int \<bar>m\<bar> * 2 powr of_int z" by (simp add: x_def abs_mult)
  also have "\<dots> < 2 ^ 53 * 2 powr of_int z"
  proof -
    have "(of_int \<bar>m\<bar> :: real) < of_int (2 ^ 53)" using assms by (simp only: of_int_less_iff)
    then show ?thesis by (simp add: mult_strict_right_mono)
  qed
  also have "\<dots> = 2 powr (of_int (53 + z))"
    by (simp add: powr_add powr_realpow[of 2 53, simplified])
  finally have "of_int E < (of_int (53 + z) :: real)" by simp
  then have le: "E - 52 \<le> z" by linarith
  define k where "k = nat (z - (E - 52))"
  have zk: "z = (E - 52) + int k" using le by (simp add: k_def)
  have p: "(2::real) powr of_int z = 2 powr of_int (E - 52) * 2 ^ k"
    by (subst zk) (simp add: powr_add powr_realpow del: of_int_diff)
  have "x / 2 powr of_int (E - 52) = of_int (m * 2 ^ k)"
    by (simp add: x_def p)
  then have "np_round (x / 2 powr of_int (E - 52)) = m * 2 ^ k"
    by (simp only: np_round_of_int)
  then have "fl64 x = of_int (m * 2 ^ k) * 2 powr of_int (E - 52)"
    using xne by (simp add: fl64_log E_def Let_def)
  also have "\<dots> = x" by (simp add: x_def p)
  finally show ?thesis by (simp add: x_def)
qed

lemma fl64_dyadic:
  assumes "\<bar>m\<bar> < 2 ^ 53"
  shows "fl64 (of_int m / 2 ^ n) = of_int m / 2 ^ n"
proof -
  have "(of_int m / 2 ^ n :: real) = of_int m * 2 powr of_int (- int n)"
    by (simp add: powr_minus powr_realpow divide_inverse)
  then show ?thesis using fl64_exact[OF assms, of "- int n"] by simp
qed

lemma fl64_int: "\<bar>m\<bar> < 2 ^ 53 \<Longrightarrow> fl64 (of_int m) = of_int m"
  using fl64_dyadic[of m 0] by simp



lemma fl64_0 [simp]: "fl64 0 = 0"
  by (simp add: fl64_log)

lemma fl64_half: "fl64 (1 / 2) = 1 / 2" "fl64 (1 / 4) = 1 / 4" "fl64 1 = 1"
  "fl64 (- (1 / 2)) = - (1 / 2)" "fl64 (- (1 / 4)) = - (1 / 4)"
  using fl64_dyadic[of 1 1] fl64_dyadic[of 1 2] fl64_int[of 1] fl64_dyadic[of "-1" 1]
    fl64_dyadic[of "-1" 2] by simp_all



lemma np_ok_fl_add: "np_ok a \<Longrightarrow> np_ok b \<Longrightarrow> np_ok (fl_add a b)"
  by (cases a; cases b) (simp_all add: np_ok_def)

lemma np_ok_foldl: "np_ok a \<Longrightarrow> \<forall>x\<in>set xs. np_ok x \<Longrightarrow> np_ok (foldl fl_add a xs)"
  by (induction xs arbitrary: a) (simp_all add: np_ok_fl_add)

lemma np_ok_pairwise_sum: "\<forall>x\<in>set a. np_ok x \<Longrightarrow> np_ok (pairwise_sum a)"
proof (induction a rule: pairwise_sum.induct)
  case (1 a)
  have z: "np_ok (Fin 0)" by (simp add: np_ok_def)
  show ?case
  proof (cases "length a < 8")
    case True
    then show ?thesis
      using np_ok_foldl[OF z "1.prems"] by (subst pairwise_sum.simps) simp
  next
    case ge: False
    show ?thesis
    proof (cases "length a \<le> 128")
      case True
      define m where "m = length a - length a mod 8"
      define r where
        "r = map (\<lambda>j. foldl fl_add (a ! j) (map (\<lambda>i. a ! (8 * i + j)) [1..<m div 8])) [0..<8]"
      have m: "m \<le> length a" "8 \<le> m" using ge by (simp_all add: m_def) presburger
      have rj: "np_ok (r ! j)" if "j < 8" for j
      proof -
        have "np_ok (a ! j)" using that ge "1.prems" by simp
        moreover have "\<forall>x\<in>set (map (\<lambda>i. a ! (8 * i + j)) [1..<m div 8]). np_ok x"
        proof
          fix x assume "x \<in> set (map (\<lambda>i. a ! (8 * i + j)) [1..<m div 8])"
          then obtain i where i: "i < m div 8" "x = a ! (8 * i + j)" by auto
          have "8 * Suc i \<le> 8 * (m div 8)" using i(1) by simp
          also have "\<dots> \<le> m" by simp
          finally have "8 * i + j < m" using that by simp
          with m i "1.prems" show "np_ok x" by simp
        qed
        ultimately have "np_ok (foldl fl_add (a ! j) (map (\<lambda>i. a ! (8 * i + j)) [1..<m div 8]))"
          by (rule np_ok_foldl)
        with that show ?thesis by (simp add: r_def del: upt_Suc)
      qed
      have res: "np_ok (fl_add (fl_add (fl_add (r ! 0) (r ! 1)) (fl_add (r ! 2) (r ! 3)))
                     (fl_add (fl_add (r ! 4) (r ! 5)) (fl_add (r ! 6) (r ! 7))))"
        by (intro np_ok_fl_add rj) simp_all
      have "\<forall>x\<in>set (drop m a). np_ok x" using "1.prems" by (meson in_set_dropD)
      from np_ok_foldl[OF res this] show ?thesis
        using ge True by (subst pairwise_sum.simps) (simp add: Let_def m_def r_def)
    next
      case False
      define n2 where "n2 = length a div 2 - (length a div 2) mod 8"
      have "\<forall>x\<in>set (take n2 a). np_ok x" using "1.prems" by (meson in_set_takeD)
      from "1.IH"(1)[OF ge False n2_def this] have t: "np_ok (pairwise_sum (take n2 a))" .
      have "\<forall>x\<in>set (drop n2 a). np_ok x" using "1.prems" by (meson in_set_dropD)
      from "1.IH"(2)[OF ge False n2_def this] have d: "np_ok (pairwise_sum (drop n2 a))" .
      show ?thesis
        using ge False np_ok_fl_add[OF t d]
        by (subst pairwise_sum.simps) (simp add: Let_def n2_def)
    qed
  qed
qed

lemma np_ok_array_sum: "\<forall>x\<in>set a. np_ok x \<Longrightarrow> np_ok (array_sum a)"
  unfolding array_sum_def by (intro np_ok_fl_add np_ok_pairwise_sum) (simp_all add: np_ok_def)

lemma pairwise_sum_short: "length a < 8 \<Longrightarrow> pairwise_sum a = foldl fl_add (Fin 0) a"
  by (subst pairwise_sum.simps) simp

subsection \<open>The library model\<close>

lemma len_of_values_update:
  "len_of_values (AList.update k (dict_get d k @ xs) d) = len_of_values d + length xs"
  by (induction d) (auto simp: len_of_values_def dict_get_def)

lemma mset_indices_update:
  "mset (indices mm (AList.update k (dict_get d k @ xs) d)) =
     mset (indices mm d) + (if snd k = mm then mset xs else {#})"
  by (induction d) (auto simp: indices_def dict_get_def)

lemma remove_all_mset:
  "remove_all sel xs = Inr ys \<Longrightarrow> mset ys + mset sel = mset xs"
  by (induction sel arbitrary: xs) (auto split: if_splits)

lemma choice_Inr:
  assumes "choice a sz p g = Inr (sel, g')"
  shows "0 \<le> sz" and "normals g' = normals g"
  using assms by (auto simp: choice_def Let_def split: if_splits)

lemma pick_distinct_props:
  "n \<le> length cands \<Longrightarrow> distinct cands \<Longrightarrow>
     length (fst (pick_distinct n cands u)) = n \<and> distinct (fst (pick_distinct n cands u)) \<and>
     set (fst (pick_distinct n cands u)) \<subseteq> set cands"
proof (induction n arbitrary: cands u)
  case 0
  then show ?case by simp
next
  case (Suc n)
  then have ne: "cands \<noteq> []" by auto
  define x where "x = cands ! (shd u mod length cands)"
  have xin: "x \<in> set cands" using ne by (simp add: x_def)
  have len: "n \<le> length (remove1 x cands)" using Suc.prems xin by (simp add: length_remove1)
  have d: "distinct (remove1 x cands)" using Suc.prems by simp
  from Suc.IH[OF len d, of "stl u"]
  have ih: "length (fst (pick_distinct n (remove1 x cands) (stl u))) = n"
    "distinct (fst (pick_distinct n (remove1 x cands) (stl u)))"
    "set (fst (pick_distinct n (remove1 x cands) (stl u))) \<subseteq> set (remove1 x cands)" by auto
  have "x \<notin> set (remove1 x cands)" using Suc.prems by simp
  have sub: "set (remove1 x cands) \<subseteq> set cands" by (rule set_remove1_subset)
  with ih xin \<open>x \<notin> set (remove1 x cands)\<close> show ?case using ne
    by (auto simp: Let_def x_def[symmetric])
qed

lemma length_filter_nth:
  "length (filter (\<lambda>i. Q (p ! i)) [0..<length p]) = length (filter Q p)"
proof -
  have "filter Q p = filter Q (map ((!) p) [0..<length p])" by (simp add: map_nth)
  also have "\<dots> = map ((!) p) (filter (\<lambda>i. Q (p ! i)) [0..<length p])"
    by (simp add: filter_map comp_def)
  finally show ?thesis by (metis length_map)
qed

lemma choice_Inr_sel:
  assumes "choice a sz p g = Inr (sel, g')"
  shows "length sel = nat sz"
    and "set sel \<subseteq> {a ! i |i. i < length a \<and> np_less (Fin 0) (p ! i)}"
    and "distinct a \<Longrightarrow> distinct sel"
proof -
  let ?supp = "filter (\<lambda>i. np_less (Fin 0) (p ! i)) [0..<length a]"
  let ?pk = "pick_distinct (nat sz) ?supp (uniforms g)"
  from assms have lp: "length p = length a" and sz: "0 \<le> sz"
    and cnt: "\<not> int (length (filter (\<lambda>x. np_less (Fin 0) x) p)) < sz"
    and sel: "sel = map (\<lambda>i. a ! i) (fst ?pk)"
    by (auto simp: choice_def Let_def split: if_splits)
  have "length ?supp = length (filter (\<lambda>x. np_less (Fin 0) x) p)"
    using length_filter_nth[of "\<lambda>x. np_less (Fin 0) x" p] lp by simp
  with cnt sz have le: "nat sz \<le> length ?supp" by linarith
  have ds: "distinct ?supp" by simp
  note pp = pick_distinct_props[OF le ds, of "uniforms g"]
  show "length sel = nat sz" using pp sel by simp
  show "set sel \<subseteq> {a ! i |i. i < length a \<and> np_less (Fin 0) (p ! i)}"
    using pp sel by auto
  show "distinct sel" if "distinct a"
  proof -
    have "inj_on (\<lambda>i. a ! i) (set (fst ?pk))"
    proof (rule inj_onI)
      fix i j assume "i \<in> set (fst ?pk)" "j \<in> set (fst ?pk)" "a ! i = a ! j"
      with pp have "i < length a" "j < length a" by auto
      with that \<open>a ! i = a ! j\<close> show "i = j" by (simp add: nth_eq_iff_index_eq)
    qed
    with pp sel show ?thesis by (simp add: distinct_map)
  qed
qed

subsection \<open>One draw\<close>

lemma sample_unfold:
  "sample P slices s =
     (case choice (slices ! cur_m s) (drawn_n P s)
             (map (\<lambda>w. np_div w (np_sum (weights (drawn_n P s) (slices ! cur_m s) (c_available s ! cur_m s))))
                (weights (drawn_n P s) (slices ! cur_m s) (c_available s ! cur_m s)))
             ((gen s)\<lparr>normals := stl (normals (gen s))\<rparr>) of
        Inl e \<Rightarrow> Inl e
      | Inr (sel, g) \<Rightarrow>
          (case remove_all sel (c_available s ! cur_m s) of
             Inl e \<Rightarrow> Inl e
           | Inr avail' \<Rightarrow>
               Inr (s\<lparr>c_quality := fl_add (c_quality s)
                         (array_sum (map (\<lambda>i. (if drawn_n P s = 1
                              then weights (drawn_n P s) (slices ! cur_m s) (c_available s ! cur_m s)
                              else map quality (slices ! cur_m s)) ! i) sel)),
                     c_sequence := AList.update (cur_loop s, cur_m s)
                         (dict_get (c_sequence s) (cur_loop s, cur_m s) @ sel) (c_sequence s),
                     c_available := (c_available s)[cur_m s := avail'],
                     gen := g\<rparr>)))"
  unfolding sample_def Let_def normal_def weights_def drawn_n_def fst_conv snd_conv by (rule refl)

lemma sample_Inr:
  assumes "sample P slices s = Inr s'"
  shows "\<exists>sel avail'.
           0 \<le> drawn_n P s \<and> length sel = nat (drawn_n P s) \<and>
           mset avail' + mset sel = mset (c_available s ! cur_m s) \<and>
           c_available s' = (c_available s)[cur_m s := avail'] \<and>
           c_sequence s' = AList.update (cur_loop s, cur_m s)
              (dict_get (c_sequence s) (cur_loop s, cur_m s) @ sel) (c_sequence s) \<and>
           cur_m s' = cur_m s \<and> cur_loop s' = cur_loop s \<and>
           normals (gen s') = stl (normals (gen s))"
proof -
  let ?w = "weights (drawn_n P s) (slices ! cur_m s) (c_available s ! cur_m s)"
  from assms obtain sel g avail' where
    ch: "choice (slices ! cur_m s) (drawn_n P s) (map (\<lambda>w. np_div w (np_sum ?w)) ?w)
           ((gen s)\<lparr>normals := stl (normals (gen s))\<rparr>) = Inr (sel, g)"
    and rm: "remove_all sel (c_available s ! cur_m s) = Inr avail'"
    and s': "s' = s\<lparr>c_quality := fl_add (c_quality s)
                         (array_sum (map (\<lambda>i. (if drawn_n P s = 1 then ?w
                              else map quality (slices ! cur_m s)) ! i) sel)),
                     c_sequence := AList.update (cur_loop s, cur_m s)
                         (dict_get (c_sequence s) (cur_loop s, cur_m s) @ sel) (c_sequence s),
                     c_available := (c_available s)[cur_m s := avail'],
                     gen := g\<rparr>"
    unfolding sample_unfold by (auto split: sum.splits prod.splits)
  from choice_Inr[OF ch] have "0 \<le> drawn_n P s" "normals g = stl (normals (gen s))" by simp_all
  moreover from choice_Inr_sel(1)[OF ch] have "length sel = nat (drawn_n P s)" .
  moreover note remove_all_mset[OF rm]
  ultimately show ?thesis unfolding s' by (intro exI[of _ sel] exI[of _ avail']) simp
qed

lemma n_slices_of_upper:
  "n_slices_of P a l x \<le> int a"
  "n_slices_of P a l x \<le> max_slices_per_mha P"
  "n_slices_of P a l x \<le> seq_len P - int l"
  by (simp_all add: n_slices_of_def np_clip_def Let_def)

lemma advance_fields [simp]:
  "c_sequence (advance s) = c_sequence s"
  "c_available (advance s) = c_available s"
  "c_quality (advance s) = c_quality s"
  "gen (advance s) = gen s"
  by (simp_all add: advance_def Let_def)

lemma sample_len:
  assumes "sample P slices s = Inr s'"
  shows "len_of_values (c_sequence s') = len_of_values (c_sequence s) + nat (drawn_n P s)"
    and "0 \<le> drawn_n P s"
  using sample_Inr[OF assms] by (auto simp: len_of_values_update)

lemma sample_pool:
  assumes "sample P slices s = Inr s'" and "cur_m s < length (c_available s)"
  shows "length (c_available s') = length (c_available s)"
    and "mset (pool_at (c_available s') mm) + mset (indices mm (c_sequence s')) =
         mset (pool_at (c_available s) mm) + mset (indices mm (c_sequence s))"
proof -
  from sample_Inr[OF assms(1)] obtain sel avail' where
    ms: "mset avail' + mset sel = mset (c_available s ! cur_m s)"
    and av: "c_available s' = (c_available s)[cur_m s := avail']"
    and sq: "c_sequence s' = AList.update (cur_loop s, cur_m s)
              (dict_get (c_sequence s) (cur_loop s, cur_m s) @ sel) (c_sequence s)"
    by blast
  show "length (c_available s') = length (c_available s)" by (simp add: av)
  show "mset (pool_at (c_available s') mm) + mset (indices mm (c_sequence s')) =
         mset (pool_at (c_available s) mm) + mset (indices mm (c_sequence s))"
  proof (cases "mm = cur_m s")
    case True
    then show ?thesis using assms(2) ms[symmetric]
      by (simp add: av sq pool_at_def mset_indices_update)
  next
    case False
    then show ?thesis by (simp add: av sq pool_at_def mset_indices_update)
  qed
qed

subsection \<open>Invariants of the candidate loop\<close>

lemma while_candidate_len:
  "while_candidate fuel P slices s = Some (Inr s') \<Longrightarrow>
     int (len_of_values (c_sequence s)) \<le> seq_len P \<Longrightarrow>
     int (len_of_values (c_sequence s')) = seq_len P"
proof (induction fuel arbitrary: s)
  case 0
  then show ?case by simp
next
  case (Suc fuel)
  show ?case
  proof (cases "int (len_of_values (c_sequence s)) < seq_len P")
    case False
    with Suc.prems show ?thesis by simp
  next
    case True
    with Suc.prems(1) have m: "cur_m s < length (c_available s)"
      by (simp split: if_splits)
    show ?thesis
    proof (cases "0 < length (c_available s ! cur_m s)")
      case False
      with True m Suc.prems(1) have "while_candidate fuel P slices (advance s) = Some (Inr s')"
        by simp
      from Suc.IH[OF this] Suc.prems(2) show ?thesis by simp
    next
      case avail: True
      with True m Suc.prems(1) obtain s1 where s1: "sample P slices s = Inr s1"
        and w: "while_candidate fuel P slices (advance s1) = Some (Inr s')"
        by (auto split: sum.splits)
      have "drawn_n P s \<le> seq_len P - int (len_of_values (c_sequence s))"
        unfolding drawn_n_def by (rule n_slices_of_upper)
      with sample_len[OF s1] have "int (len_of_values (c_sequence s1)) \<le> seq_len P" by simp
      with Suc.IH[OF w] show ?thesis by simp
    qed
  qed
qed

lemma while_candidate_pool:
  "while_candidate fuel P slices s = Some (Inr s') \<Longrightarrow>
     length (c_available s') = length (c_available s) \<and>
     (\<forall>mm. mset (pool_at (c_available s') mm) + mset (indices mm (c_sequence s')) =
           mset (pool_at (c_available s) mm) + mset (indices mm (c_sequence s)))"
proof (induction fuel arbitrary: s)
  case 0
  then show ?case by simp
next
  case (Suc fuel)
  show ?case
  proof (cases "int (len_of_values (c_sequence s)) < seq_len P")
    case False
    with Suc.prems show ?thesis by simp
  next
    case True
    with Suc.prems(1) have m: "cur_m s < length (c_available s)"
      by (simp split: if_splits)
    show ?thesis
    proof (cases "0 < length (c_available s ! cur_m s)")
      case False
      with True m Suc.prems(1) have "while_candidate fuel P slices (advance s) = Some (Inr s')"
        by simp
      from Suc.IH[OF this] show ?thesis by simp
    next
      case avail: True
      with True m Suc.prems(1) obtain s1 where s1: "sample P slices s = Inr s1"
        and w: "while_candidate fuel P slices (advance s1) = Some (Inr s')"
        by (auto split: sum.splits)
      from Suc.IH[OF w] sample_pool[OF s1 m] show ?thesis by simp
    qed
  qed
qed

subsection \<open>Which errors can be raised\<close>

lemma remove_all_error: "remove_all sel xs = Inl e \<Longrightarrow> e = ValueError"
  by (induction sel arbitrary: xs) (auto split: if_splits)

lemma choice_error: "choice a sz p g = Inl e \<Longrightarrow> e = ValueError"
  by (auto simp: choice_def Let_def split: if_splits)

lemma sample_error: "sample P slices s = Inl e \<Longrightarrow> e = ValueError"
  unfolding sample_unfold
  by (auto split: sum.splits prod.splits dest: choice_error remove_all_error)

lemma while_candidate_error:
  "while_candidate fuel P slices s = Some (Inl e) \<Longrightarrow> e = ValueError \<or> e = KeyError"
proof (induction fuel arbitrary: s)
  case 0
  then show ?case by simp
next
  case (Suc fuel)
  then show ?case
    by (auto split: if_splits sum.splits dest: sample_error)
qed

subsection \<open>Candidates\<close>

lemma generate_candidate_Inr:
  assumes "generate_candidate fuel P slices c available g = Some (Inr ((cq, sq, pl), g'))"
  shows "int (len_of_values (entries sq)) = seq_len P" and "case_id sq = c"
    and "length pl = length available"
    and "mset (pool_at pl mm) + mset (indices mm (entries sq)) = mset (pool_at available mm)"
proof -
  let ?s0 = "\<lparr>c_quality = Fin 0, c_sequence = [], c_available = available,
              cur_m = 0, cur_loop = 0, gen = g\<rparr>"
  from assms obtain s where w: "while_candidate fuel P slices ?s0 = Some (Inr s)"
    and len: "int (len_of_values (c_sequence s)) = seq_len P"
    and eq: "cq = c_quality s" "sq = \<lparr>case_id = c, entries = c_sequence s\<rparr>" "pl = c_available s"
    by (auto simp: generate_candidate_def split: option.splits sum.splits if_splits)
  show "int (len_of_values (entries sq)) = seq_len P" using len eq by simp
  show "case_id sq = c" using eq by simp
  from while_candidate_pool[OF w]
  show "length pl = length available"
    and "mset (pool_at pl mm) + mset (indices mm (entries sq)) = mset (pool_at available mm)"
    using eq by (simp_all add: indices_def)
qed

lemma generate_candidate_error:
  assumes "generate_candidate fuel P slices c available g = Some (Inl e)" and "0 \<le> seq_len P"
  shows "e = ValueError \<or> e = KeyError"
proof -
  let ?s0 = "\<lparr>c_quality = Fin 0, c_sequence = [], c_available = available,
              cur_m = 0, cur_loop = 0, gen = g\<rparr>"
  show ?thesis
  proof (cases "while_candidate fuel P slices ?s0")
    case None
    with assms show ?thesis by (simp add: generate_candidate_def)
  next
    case (Some res)
    show ?thesis
    proof (cases res)
      case (Inl e')
      with Some assms(1) have "e' = e" by (simp add: generate_candidate_def)
      with while_candidate_error Some Inl show ?thesis by blast
    next
      case (Inr s)
      have "int (len_of_values (c_sequence ?s0)) \<le> seq_len P"
        using assms(2) by (simp add: len_of_values_def)
      with while_candidate_len[of fuel P slices ?s0 s] Some Inr
      have "int (len_of_values (c_sequence s)) = seq_len P" by simp
      with Some Inr assms(1) show ?thesis by (simp add: generate_candidate_def)
    qed
  qed
qed

lemma candidates_Inr:
  "candidates k fuel P slices c available g = Some (Inr (cands, g')) \<Longrightarrow>
     length cands = k \<and>
     (\<forall>cand\<in>set cands. \<exists>g1 g2.
         generate_candidate fuel P slices c available g1 = Some (Inr (cand, g2)))"
proof (induction k arbitrary: g cands)
  case 0
  then show ?case by simp
next
  case (Suc k)
  from Suc.prems obtain cand g1 rest where
    gc: "generate_candidate fuel P slices c available g = Some (Inr (cand, g1))"
    and cs: "candidates k fuel P slices c available g1 = Some (Inr (rest, g'))"
    and eq: "cands = cand # rest"
    by (auto split: option.splits sum.splits prod.splits)
  from Suc.IH[OF cs] gc eq show ?case by auto
qed

lemma candidates_error:
  "candidates k fuel P slices c available g = Some (Inl e) \<Longrightarrow>
     \<exists>g1. generate_candidate fuel P slices c available g1 = Some (Inl e)"
proof (induction k arbitrary: g)
  case 0
  then show ?case by simp
next
  case (Suc k)
  then show ?case
    by (auto split: option.splits sum.splits prod.splits)
qed

subsection \<open>The greedy loop\<close>

lemma set_insort_by [simp]: "set (insort_by f x ys) = insert x (set ys)"
  by (induction ys) auto

lemma set_sort_by [simp]: "set (sort_by f xs) = set xs"
  by (induction xs) (simp_all add: sort_by_def)

lemma greedy_step_cases:
  assumes "greedy (Suc fuel) ifuel P q slices c available sequences g = Some res"
  obtains (exhausted) "int (len_of_pool available) < seq_len P" "res = Inr sequences"
  | (failed) e where "\<not> int (len_of_pool available) < seq_len P"
      "candidates 100 ifuel P slices c available g = Some (Inl e)" "res = Inl e"
  | (empty) cands g' where "\<not> int (len_of_pool available) < seq_len P"
      "candidates 100 ifuel P slices c available g = Some (Inr (cands, g'))"
      "sort_by (distance q) cands = []" "res = Inl IndexError"
  | (below) cands g' best rest where "\<not> int (len_of_pool available) < seq_len P"
      "candidates 100 ifuel P slices c available g = Some (Inr (cands, g'))"
      "sort_by (distance q) cands = best # rest" "np_less (fst best) (Fin q)"
      "res = Inr sequences"
  | (accept) cands g' best rest where "\<not> int (len_of_pool available) < seq_len P"
      "candidates 100 ifuel P slices c available g = Some (Inr (cands, g'))"
      "sort_by (distance q) cands = best # rest" "\<not> np_less (fst best) (Fin q)"
      "greedy fuel ifuel P q slices c (snd (snd best)) (sequences @ [fst (snd best)]) g' = Some res"
  using assms
  by (auto split: if_splits option.splits sum.splits prod.splits list.splits)

lemma winner_is_candidate:
  assumes "candidates k ifuel P slices c available g = Some (Inr (cands, g'))"
    and "sort_by (distance q) cands = best # rest"
  shows "\<exists>g1 g2. generate_candidate ifuel P slices c available g1 =
           Some (Inr ((fst best, fst (snd best), snd (snd best)), g2))"
proof -
  have "best \<in> set (sort_by (distance q) cands)" using assms(2) by simp
  then have "best \<in> set cands" by simp
  with candidates_Inr[OF assms(1)] show ?thesis by auto
qed

lemma greedy_Inr:
  "greedy fuel ifuel P q slices c available sequences g = Some (Inr seqs') \<Longrightarrow>
     \<exists>rest. seqs' = sequences @ rest \<and>
       (\<forall>sq\<in>set rest. int (len_of_values (entries sq)) = seq_len P \<and> case_id sq = c) \<and>
       (\<forall>mm. mset (all_indices mm rest) \<subseteq># mset (pool_at available mm))"
proof (induction fuel arbitrary: available sequences g)
  case 0
  then show ?case by simp
next
  case (Suc fuel)
  from Suc.prems show ?case
  proof (cases rule: greedy_step_cases)
    case exhausted
    then show ?thesis by (simp add: all_indices_def)
  next
    case (below cands g' best rest)
    then show ?thesis by (simp add: all_indices_def)
  next
    case (accept cands g' best rest)
    from winner_is_candidate[OF accept(2,3)] obtain g1 g2 where
      gc: "generate_candidate ifuel P slices c available g1 =
             Some (Inr ((fst best, fst (snd best), snd (snd best)), g2))" by blast
    note props = generate_candidate_Inr[OF gc]
    from Suc.IH[OF accept(5)] obtain rest' where
      r1: "seqs' = (sequences @ [fst (snd best)]) @ rest'"
      and r2: "\<forall>sq\<in>set rest'. int (len_of_values (entries sq)) = seq_len P \<and> case_id sq = c"
      and r3: "\<forall>mm. mset (all_indices mm rest') \<subseteq># mset (pool_at (snd (snd best)) mm)"
      by blast
    have "mset (all_indices mm (fst (snd best) # rest')) \<subseteq># mset (pool_at available mm)" for mm
    proof -
      have "mset (all_indices mm (fst (snd best) # rest')) =
              mset (indices mm (entries (fst (snd best)))) + mset (all_indices mm rest')"
        by (simp add: all_indices_def)
      also have "\<dots> \<subseteq># mset (indices mm (entries (fst (snd best)))) +
                     mset (pool_at (snd (snd best)) mm)"
        using r3 by simp
      also have "\<dots> = mset (pool_at available mm)"
        using props(4)[of mm] by (simp add: add.commute)
      finally show ?thesis .
    qed
    with r1 r2 props(1,2) show ?thesis
      by (intro exI[of _ "fst (snd best) # rest'"]) simp
  qed simp_all
qed

lemma greedy_error:
  "greedy fuel ifuel P q slices c available sequences g = Some (Inl e) \<Longrightarrow> 0 \<le> seq_len P \<Longrightarrow>
     e \<noteq> AssertionError"
proof (induction fuel arbitrary: available sequences g)
  case 0
  then show ?case by simp
next
  case (Suc fuel)
  from Suc.prems(1) show ?case
  proof (cases rule: greedy_step_cases)
    case (failed e')
    from candidates_error[OF failed(2)] obtain g1 where
      "generate_candidate ifuel P slices c available g1 = Some (Inl e')" by blast
    from generate_candidate_error[OF this Suc.prems(2)] failed(3) show ?thesis by auto
  next
    case (accept cands g' best rest)
    from Suc.IH[OF accept(5) Suc.prems(2)] show ?thesis .
  qed simp_all
qed

subsection \<open>The run of the example\<close>

lemma np_less_irrefl [simp]: "\<not> np_less x x"
  by (cases x) simp_all

lemma insort_by_replicate: "insort_by f x (replicate k x) = x # replicate k x"
  by (cases k) simp_all

lemma sort_by_replicate: "sort_by f (replicate k x) = replicate k x"
  by (induction k) (simp_all add: sort_by_def insort_by_replicate)

lemma candidates_same:
  "generate_candidate fuel P sl c av g = Some (Inr (cand, g)) \<Longrightarrow>
     candidates k fuel P sl c av g = Some (Inr (replicate k cand, g))"
  by (induction k) simp_all

lemma greedy_same:
  assumes "generate_candidate ifuel P sl c av g = Some (Inr (cand, g))"
    and "\<not> int (len_of_pool av) < seq_len P"
  shows "greedy (Suc fuel) ifuel P q sl c av sequences g =
    (if np_less (fst cand) (Fin q) then Some (Inr sequences)
     else greedy fuel ifuel P q sl c (snd (snd cand)) (sequences @ [fst (snd cand)]) g)"
proof -
  have r: "replicate 100 cand = cand # replicate 99 cand"
    by (simp add: numeral_nat replicate_Suc[symmetric] del: replicate_Suc)
  have s: "sort_by (distance q) (replicate 100 cand) = cand # replicate 99 cand"
    unfolding sort_by_replicate by (rule r)
  show ?thesis
    using assms(2) by (simp add: candidates_same[OF assms(1)] s)
qed

lemma np_round_2: "np_round 2 = 2"
  by (simp add: np_round_def)

lemma quality_0: "quality 0 = Fin (1 / 4)"
  by (simp add: quality_def np_power2_def)

lemma quality_1: "quality (Suc 0) = Fin (1 / 2)"
  by (simp add: quality_def np_power2_def)

lemma ex_normal: "normal 2 ex_rng = (2, ex_rng)"
  by (simp add: normal_def ex_rng_def)

lemma ex_sample1:
  "sample ex_P [[0, Suc 0]]
     \<lparr>c_quality = Fin 0, c_sequence = [], c_available = [[0, Suc 0]],
      cur_m = 0, cur_loop = 0, gen = ex_rng\<rparr> =
   Inr \<lparr>c_quality = Fin (1 / 4), c_sequence = [((0, 0), [0])], c_available = [[Suc 0]],
        cur_m = 0, cur_loop = 0, gen = ex_rng\<rparr>"
proof -
  have n: "n_slices_of ex_P (Suc (Suc 0)) 0 2 = 1"
    by (simp add: n_slices_of_def ex_P_def np_clip_def np_round_2)
  have ch: "choice [0, Suc 0] 1 [Fin (1 / 3), Fin (2 / 3)] ex_rng = Inr ([0], ex_rng)"
    by (simp add: choice_def ex_rng_def)
  have m: "mean_slices_per_mha ex_P = 2" by (simp add: ex_P_def)
  show ?thesis
    unfolding sample_def
    by (simp add: ex_normal m n len_of_values_def quality_0 quality_1 ch dict_get_def
        array_sum_def pairwise_sum_short fl64_half)
qed

lemma ex_sample2:
  "sample ex_P [[0, Suc 0]]
     \<lparr>c_quality = Fin 0, c_sequence = [], c_available = [[Suc 0]],
      cur_m = 0, cur_loop = 0, gen = ex_rng\<rparr> =
   Inr \<lparr>c_quality = Fin (1 / 2), c_sequence = [((0, 0), [Suc 0])], c_available = [[]],
        cur_m = 0, cur_loop = 0, gen = ex_rng\<rparr>"
proof -
  have n: "n_slices_of ex_P (Suc 0) 0 2 = 1"
    by (simp add: n_slices_of_def ex_P_def np_clip_def np_round_2)
  have ch: "choice [0, Suc 0] 1 [Fin 0, Fin 1] ex_rng = Inr ([Suc 0], ex_rng)"
    by (simp add: choice_def ex_rng_def)
  have m: "mean_slices_per_mha ex_P = 2" by (simp add: ex_P_def)
  show ?thesis
    unfolding sample_def
    by (simp add: ex_normal m n len_of_values_def quality_0 quality_1 ch dict_get_def
        array_sum_def pairwise_sum_short fl64_half)
qed

lemma ex_candidate1:
  "generate_candidate (Suc (Suc fuel)) ex_P [[0, Suc 0]] ''a'' [[0, Suc 0]] ex_rng =
     Some (Inr ((Fin (1 / 4), ex_seq1, [[Suc 0]]), ex_rng))"
  by (simp add: generate_candidate_def ex_sample1 advance_def ex_seq1_def)
    (simp add: ex_P_def len_of_values_def)

lemma ex_candidate2:
  "generate_candidate (Suc (Suc fuel)) ex_P [[0, Suc 0]] ''a'' [[Suc 0]] ex_rng =
     Some (Inr ((Fin (1 / 2), ex_seq2, [[]]), ex_rng))"
  by (simp add: generate_candidate_def ex_sample2 advance_def ex_seq2_def)
    (simp add: ex_P_def len_of_values_def)

lemma ex_greedy:
  "greedy (Suc (Suc (Suc 0))) (Suc (Suc (Suc 0))) ex_P 0 [[0, Suc 0]] ''a'' [[0, Suc 0]] [] ex_rng =
     Some (Inr [ex_seq1, ex_seq2])"
proof -
  have sl: "seq_len ex_P = 1" by (simp add: ex_P_def)
  have "greedy (Suc (Suc (Suc 0))) (Suc (Suc (Suc 0))) ex_P 0 [[0, Suc 0]] ''a'' [[0, Suc 0]] [] ex_rng =
        greedy (Suc (Suc 0)) (Suc (Suc (Suc 0))) ex_P 0 [[0, Suc 0]] ''a'' [[Suc 0]] [ex_seq1] ex_rng"
    by (subst greedy_same[OF ex_candidate1]) (simp_all add: sl len_of_pool_def del: greedy.simps)
  also have "\<dots> = greedy (Suc 0) (Suc (Suc (Suc 0))) ex_P 0 [[0, Suc 0]] ''a'' [[]] [ex_seq1, ex_seq2] ex_rng"
    by (subst greedy_same[OF ex_candidate2]) (simp_all add: sl len_of_pool_def del: greedy.simps)
  also have "\<dots> = Some (Inr [ex_seq1, ex_seq2])"
    by (simp add: sl len_of_pool_def)
  finally show ?thesis .
qed

lemma ex_run:
  "generate_sequences 3 (\<lambda>sd. ex_rng) (\<lambda>c. ex_rng) [0] ex_shapes [''a''] 0 ex_P 0 =
     Some (Inr [''a'' \<mapsto> [ex_seq1, ex_seq2]])"
proof -
  have t: "target 0 (seq_len ex_P) = 0" by (simp add: target_def np_clip_def)
  have "generate_case 3 (\<lambda>sd. ex_rng) (\<lambda>c. ex_rng) ex_shapes [''a''] 0 ex_P 0 ''a'' =
          Some (Inr [ex_seq1, ex_seq2])"
    using ex_greedy
    by (simp add: generate_case_def seeds_def ex_shapes_def initial_pool_def t numeral_3_eq_3
        upt_rec)
  then show ?thesis
    by (simp add: generate_sequences_def)
qed

subsection \<open>Tasks and their collection\<close>

lemma generate_case_Inr:
  assumes "generate_case fuel default_rng fresh shapes keys seed P q c = Some (Inr seqs)"
  shows "\<exists>shp g. shapes c = Some shp \<and>
           greedy fuel fuel P (target q (seq_len P)) (initial_pool shp) c (initial_pool shp) [] g
             = Some (Inr seqs)"
  using assms
  by (auto simp: generate_case_def split: if_splits option.splits sum.splits)

lemma generate_case_error:
  assumes "generate_case fuel default_rng fresh shapes keys seed P q c = Some (Inl e)"
    and "0 \<le> seq_len P"
  shows "e \<noteq> AssertionError"
  using assms
  by (auto simp: generate_case_def split: if_splits option.splits sum.splits
      dest: greedy_error)

lemma collect_Inr:
  "collect coll0 xs = Inr coll \<Longrightarrow> coll k = Some v \<Longrightarrow>
     coll0 k = Some v \<or> (k, Inr v) \<in> set xs"
proof (induction xs arbitrary: coll0)
  case Nil
  then show ?case by simp
next
  case (Cons x xs)
  obtain key res where x: "x = (key, res)" by (cases x)
  with Cons.prems(1) obtain seqs where res: "res = Inr seqs"
    and c: "collect (coll0(key \<mapsto> seqs)) xs = Inr coll"
    by (auto split: sum.splits)
  from Cons.IH[OF c Cons.prems(2)] show ?case
    by (auto simp: x res split: if_splits)
qed

lemma collect_Inl:
  "collect coll0 xs = Inl e \<Longrightarrow> \<exists>k. (k, Inl e) \<in> set xs"
proof (induction xs arbitrary: coll0)
  case Nil
  then show ?case by simp
next
  case (Cons x xs)
  obtain key res where x: "x = (key, res)" by (cases x)
  show ?case
  proof (cases res)
    case (Inl e')
    with Cons.prems x show ?thesis by auto
  next
    case (Inr seqs)
    with Cons.prems x have "collect (coll0(key \<mapsto> seqs)) xs = Inl e" by simp
    from Cons.IH[OF this] show ?thesis by auto
  qed
qed

lemma completion_order_bound:
  "completion_order keys order \<Longrightarrow> i \<in> set order \<Longrightarrow> i < length keys"
  using mset_eq_setD[of order "[0..<length keys]"]
  by (auto simp: completion_order_def simp del: mset_upt)

lemma generate_sequences_task:
  assumes "generate_sequences fuel default_rng fresh order shapes keys seed P q = Some res"
    and "completion_order keys order" and "i \<in> set order"
  shows "\<exists>r. generate_case fuel default_rng fresh shapes keys seed P q (keys ! i) = Some r \<and>
           the (map (generate_case fuel default_rng fresh shapes keys seed P q) keys ! i) = r"
proof -
  have i: "i < length keys" using assms(2,3) by (rule completion_order_bound)
  from assms(1) have "\<not> list_ex (\<lambda>t. t = None)
      (map (generate_case fuel default_rng fresh shapes keys seed P q) keys)"
    by (simp add: generate_sequences_def Let_def split: if_splits)
  then have "\<forall>c\<in>set keys. generate_case fuel default_rng fresh shapes keys seed P q c \<noteq> None"
    by (force simp: list_ex_iff)
  with i have "generate_case fuel default_rng fresh shapes keys seed P q (keys ! i) \<noteq> None"
    by simp
  with i show ?thesis by auto
qed

lemma generate_sequences_entry:
  assumes "generate_sequences fuel default_rng fresh order shapes keys seed P q = Some (Inr coll)"
    and "completion_order keys order" and "coll c = Some seqs"
  shows "c \<in> set keys \<and>
         generate_case fuel default_rng fresh shapes keys seed P q c = Some (Inr seqs)"
proof -
  let ?tasks = "map (generate_case fuel default_rng fresh shapes keys seed P q) keys"
  from assms(1) have "collect Map.empty (map (\<lambda>i. (keys ! i, the (?tasks ! i))) order) = Inr coll"
    by (auto simp: generate_sequences_def Let_def split: if_splits)
  from collect_Inr[OF this assms(3)] obtain i where i: "i \<in> set order"
    and k: "keys ! i = c" and t: "the (?tasks ! i) = Inr seqs" by auto
  from generate_sequences_task[OF assms(1,2) i] k t
  have "generate_case fuel default_rng fresh shapes keys seed P q c = Some (Inr seqs)" by auto
  moreover have "c \<in> set keys" using completion_order_bound[OF assms(2) i] k by auto
  ultimately show ?thesis by simp
qed

lemma generate_sequences_error:
  assumes "generate_sequences fuel default_rng fresh order shapes keys seed P q = Some (Inl e)"
    and "completion_order keys order"
  shows "\<exists>c\<in>set keys. generate_case fuel default_rng fresh shapes keys seed P q c = Some (Inl e)"
proof -
  let ?tasks = "map (generate_case fuel default_rng fresh shapes keys seed P q) keys"
  from assms(1) have "collect Map.empty (map (\<lambda>i. (keys ! i, the (?tasks ! i))) order) = Inl e"
    by (auto simp: generate_sequences_def Let_def split: if_splits)
  from collect_Inl[OF this] obtain i where i: "i \<in> set order"
    and t: "the (?tasks ! i) = Inl e" by auto
  from generate_sequences_task[OF assms(1,2) i] t
  have "generate_case fuel default_rng fresh shapes keys seed P q (keys ! i) = Some (Inl e)" by auto
  moreover have "keys ! i \<in> set keys" using completion_order_bound[OF assms(2) i] by simp
  ultimately show ?thesis by blast
qed

subsection \<open>Distinct lists\<close>

lemma distinct_of_subset_mset:
  assumes "mset xs \<subseteq># mset ys" and "distinct ys"
  shows "distinct xs"
proof -
  have "count (mset xs) a = (if a \<in> set xs then 1 else 0)" for a
  proof (cases "a \<in> set xs")
    case True
    have "count (mset xs) a \<le> count (mset ys) a"
      using assms(1) by (simp add: mset_subset_eq_count)
    also have "\<dots> \<le> 1" using assms(2) by (simp add: distinct_count_atmost_1)
    finally have le: "count (mset xs) a \<le> 1" .
    have nz: "count (mset xs) a \<noteq> 0"
      using True by (metis count_eq_zero_iff set_mset_mset)
    from le nz have "count (mset xs) a = 1" by linarith
    then show ?thesis using True by simp
  next
    case False
    then show ?thesis by (simp add: count_eq_zero_iff)
  qed
  then show ?thesis by (simp add: distinct_count_atmost_1)
qed

lemma distinct_concat_disjoint:
  "distinct (concat xs) \<Longrightarrow> i < j \<Longrightarrow> j < length xs \<Longrightarrow> set (xs ! i) \<inter> set (xs ! j) = {}"
proof (induction xs arbitrary: i j)
  case Nil
  then show ?case by simp
next
  case (Cons x xs)
  from Cons.prems(2) obtain j' where j: "j = Suc j'" by (cases j) auto
  show ?case
  proof (cases i)
    case 0
    have "xs ! j' \<in> set xs" using Cons.prems(3) j by simp
    with Cons.prems(1) 0 j show ?thesis by auto
  next
    case (Suc i')
    with Cons.IH[of i' j'] Cons.prems j show ?thesis by simp
  qed
qed

lemma distinct_pool_at_initial: "distinct (pool_at (initial_pool shp) mm)"
  by (simp add: pool_at_def initial_pool_def)

subsection \<open>The size of the pool\<close>

lemma len_of_pool_update:
  "i < length pl \<Longrightarrow>
     len_of_pool (pl[i := a]) + length (pl ! i) = len_of_pool pl + length a"
proof (induction pl arbitrary: i)
  case Nil
  then show ?case by simp
next
  case (Cons x pl)
  then show ?case by (cases i) (auto simp: len_of_pool_def)
qed

lemma sample_total:
  assumes "sample P slices s = Inr s'" and "cur_m s < length (c_available s)"
  shows "len_of_pool (c_available s') + len_of_values (c_sequence s') =
         len_of_pool (c_available s) + len_of_values (c_sequence s)"
proof -
  from sample_Inr[OF assms(1)] obtain sel avail' where
    ms: "mset avail' + mset sel = mset (c_available s ! cur_m s)"
    and av: "c_available s' = (c_available s)[cur_m s := avail']"
    and sq: "c_sequence s' = AList.update (cur_loop s, cur_m s)
              (dict_get (c_sequence s) (cur_loop s, cur_m s) @ sel) (c_sequence s)"
    by blast
  from ms have "size (mset avail' + mset sel) = size (mset (c_available s ! cur_m s))" by simp
  then have l: "length avail' + length sel = length (c_available s ! cur_m s)" by simp
  from len_of_pool_update[OF assms(2), of avail'] l show ?thesis
    by (simp add: av sq len_of_values_update)
qed

lemma while_candidate_total:
  "while_candidate fuel P slices s = Some (Inr s') \<Longrightarrow>
     len_of_pool (c_available s') + len_of_values (c_sequence s') =
     len_of_pool (c_available s) + len_of_values (c_sequence s)"
proof (induction fuel arbitrary: s)
  case 0
  then show ?case by simp
next
  case (Suc fuel)
  show ?case
  proof (cases "int (len_of_values (c_sequence s)) < seq_len P")
    case False
    with Suc.prems show ?thesis by simp
  next
    case True
    with Suc.prems(1) have m: "cur_m s < length (c_available s)"
      by (simp split: if_splits)
    show ?thesis
    proof (cases "0 < length (c_available s ! cur_m s)")
      case False
      with True m Suc.prems(1) have "while_candidate fuel P slices (advance s) = Some (Inr s')"
        by simp
      from Suc.IH[OF this] show ?thesis by simp
    next
      case avail: True
      with True m Suc.prems(1) obtain s1 where s1: "sample P slices s = Inr s1"
        and w: "while_candidate fuel P slices (advance s1) = Some (Inr s')"
        by (auto split: sum.splits)
      from Suc.IH[OF w] sample_total[OF s1 m] show ?thesis by simp
    qed
  qed
qed

lemma generate_candidate_total:
  assumes "generate_candidate fuel P slices c available g = Some (Inr ((cq, sq, pl), g'))"
  shows "int (len_of_pool pl) + seq_len P = int (len_of_pool available)"
proof -
  let ?s0 = "\<lparr>c_quality = Fin 0, c_sequence = [], c_available = available,
              cur_m = 0, cur_loop = 0, gen = g\<rparr>"
  from assms obtain s where w: "while_candidate fuel P slices ?s0 = Some (Inr s)"
    and len: "int (len_of_values (c_sequence s)) = seq_len P"
    and eq: "pl = c_available s"
    by (auto simp: generate_candidate_def split: option.splits sum.splits if_splits)
  from while_candidate_total[OF w] len eq show ?thesis by (simp add: len_of_values_def)
qed

subsection \<open>The scheduler\<close>

lemma collect_all_Inr:
  "\<forall>x\<in>set xs. snd x = Inr (f (fst x)) \<Longrightarrow>
     collect coll0 xs = Inr (\<lambda>k. if k \<in> fst ` set xs then Some (f k) else coll0 k)"
proof (induction xs arbitrary: coll0)
  case Nil
  then show ?case by simp
next
  case (Cons x xs)
  obtain key res where x: "x = (key, res)" by (cases x)
  with Cons.prems have res: "res = Inr (f key)" by simp
  from Cons.prems have rest: "\<forall>x\<in>set xs. snd x = Inr (f (fst x))" by simp
  have "collect coll0 (x # xs) = collect (coll0(key \<mapsto> f key)) xs"
    by (simp add: x res)
  also have "\<dots> = Inr (\<lambda>k. if k \<in> fst ` set xs then Some (f k) else (coll0(key \<mapsto> f key)) k)"
    using rest by (rule Cons.IH)
  also have "(\<lambda>k. if k \<in> fst ` set xs then Some (f k) else (coll0(key \<mapsto> f key)) k) =
             (\<lambda>k. if k \<in> fst ` set (x # xs) then Some (f k) else coll0 k)"
    by (auto simp: x fun_eq_iff)
  finally show ?case .
qed

lemma collect_some_Inl:
  "(k, Inl e) \<in> set xs \<Longrightarrow> \<exists>k' e'. (k', Inl e') \<in> set xs \<and> collect coll0 xs = Inl e'"
proof (induction xs arbitrary: coll0)
  case Nil
  then show ?case by simp
next
  case (Cons x xs)
  obtain key res where x: "x = (key, res)" by (cases x)
  show ?case
  proof (cases res)
    case (Inl e')
    with x show ?thesis by auto
  next
    case (Inr seqs)
    with Cons.prems x have "(k, Inl e) \<in> set xs" by auto
    from Cons.IH[OF this, of "coll0(key \<mapsto> seqs)"] obtain k' e' where
      "(k', Inl e') \<in> set xs" "collect (coll0(key \<mapsto> seqs)) xs = Inl e'" by blast
    moreover have "collect coll0 (x # xs) = collect (coll0(key \<mapsto> seqs)) xs"
      by (simp add: x Inr)
    ultimately show ?thesis by auto
  qed
qed

lemma completion_order_set:
  "completion_order keys order \<Longrightarrow> set order = {0..<length keys}"
  using mset_eq_setD[of order "[0..<length keys]"]
  by (auto simp: completion_order_def simp del: mset_upt)

lemma generate_sequences_Some:
  assumes "\<forall>c\<in>set keys. generate_case fuel default_rng fresh shapes keys seed P q c \<noteq> None"
    and "completion_order keys order"
  shows "generate_sequences fuel default_rng fresh order shapes keys seed P q =
           Some (collect Map.empty
             (map (\<lambda>i. (keys ! i, the (generate_case fuel default_rng fresh shapes keys seed P q (keys ! i))))
                order))"
proof -
  have "\<not> list_ex (\<lambda>t. t = None)
          (map (generate_case fuel default_rng fresh shapes keys seed P q) keys)"
    using assms(1) by (force simp: list_ex_iff)
  moreover have "map (\<lambda>i. (keys ! i,
        the (map (generate_case fuel default_rng fresh shapes keys seed P q) keys ! i))) order =
      map (\<lambda>i. (keys ! i, the (generate_case fuel default_rng fresh shapes keys seed P q (keys ! i))))
        order"
    by (rule map_cong[OF refl]) (simp add: completion_order_bound[OF assms(2)])
  ultimately show ?thesis unfolding generate_sequences_def Let_def by (simp only: if_False)
qed

lemma generate_sequences_None:
  assumes "c \<in> set keys"
    and "generate_case fuel default_rng fresh shapes keys seed P q c = None"
  shows "generate_sequences fuel default_rng fresh order shapes keys seed P q = None"
proof -
  have "list_ex (\<lambda>t. t = None)
          (map (generate_case fuel default_rng fresh shapes keys seed P q) keys)"
    using assms by (force simp: list_ex_iff)
  then show ?thesis by (simp add: generate_sequences_def Let_def)
qed

lemma generate_sequences_returns:
  "generate_sequences fuel default_rng fresh order shapes keys seed P q = Some res \<Longrightarrow>
     \<forall>c\<in>set keys. generate_case fuel default_rng fresh shapes keys seed P q c \<noteq> None"
  using generate_sequences_None by (metis option.distinct(1))

lemma some_task_failed:
  assumes "completion_order keys order" and "c \<in> set keys"
    and "generate_case fuel default_rng fresh shapes keys seed P q c = Some (Inl e)"
    and "\<forall>c'\<in>set keys. generate_case fuel default_rng fresh shapes keys seed P q c' \<noteq> None"
  shows "\<exists>c'\<in>set keys. \<exists>e'.
            generate_case fuel default_rng fresh shapes keys seed P q c' = Some (Inl e') \<and>
            generate_sequences fuel default_rng fresh order shapes keys seed P q = Some (Inl e')"
proof -
  let ?task = "generate_case fuel default_rng fresh shapes keys seed P q"
  let ?xs = "map (\<lambda>i. (keys ! i, the (?task (keys ! i)))) order"
  from assms(2) obtain i where i: "i < length keys" "keys ! i = c"
    by (auto simp: in_set_conv_nth)
  then have "i \<in> set order" using completion_order_set[OF assms(1)] by simp
  then have "(c, Inl e) \<in> set ?xs" using i assms(3) by force
  from collect_some_Inl[OF this, of Map.empty] obtain k' e' where
    mem: "(k', Inl e') \<in> set ?xs" and col: "collect Map.empty ?xs = Inl e'" by blast
  from mem obtain j where j: "j \<in> set order" "keys ! j = k'" "the (?task (keys ! j)) = Inl e'"
    by auto
  have jk: "keys ! j \<in> set keys" using completion_order_bound[OF assms(1) j(1)] by simp
  with assms(4) j(3) have t: "?task (keys ! j) = Some (Inl e')" by fastforce
  have run: "generate_sequences fuel default_rng fresh order shapes keys seed P q = Some (Inl e')"
    using generate_sequences_Some[OF assms(4,1)] col by simp
  from jk t run show ?thesis by blast
qed

subsection \<open>Seeds\<close>

lemma seeds_snoc:
  "seeds seed (ks @ [k]) = (seeds seed ks)(k \<mapsto> seed + int (length ks))"
  by (simp add: seeds_def)

lemma seeds_nth:
  "distinct keys \<Longrightarrow> i < length keys \<Longrightarrow> seeds seed keys (keys ! i) = Some (seed + int i)"
proof (induction keys rule: rev_induct)
  case Nil
  then show ?case by simp
next
  case (snoc k ks)
  show ?case
  proof (cases "i < length ks")
    case True
    with snoc.prems have "ks ! i \<noteq> k" by auto
    with True snoc show ?thesis by (simp add: seeds_snoc nth_append)
  next
    case False
    with snoc.prems have "i = length ks" by simp
    then show ?thesis by (simp add: seeds_snoc)
  qed
qed

lemma generate_case_seeded:
  "0 \<le> seed \<Longrightarrow>
     generate_case fuel default_rng fresh shapes keys seed P q c =
     generate_case fuel default_rng fresh' shapes keys seed P q c"
  by (simp add: generate_case_def)

lemma generate_sequences_all_Inr:
  assumes "generate_sequences fuel default_rng fresh order shapes keys seed P q = Some (Inr coll)"
    and "completion_order keys order" and "c \<in> set keys"
  shows "\<exists>seqs. generate_case fuel default_rng fresh shapes keys seed P q c = Some (Inr seqs)"
proof -
  note ret = generate_sequences_returns[OF assms(1)]
  with assms(3) obtain r where r: "generate_case fuel default_rng fresh shapes keys seed P q c = Some r"
    by auto
  show ?thesis
  proof (cases r)
    case (Inl e)
    from some_task_failed[OF assms(2,3) r[unfolded Inl] ret] assms(1) show ?thesis by auto
  next
    case (Inr seqs)
    with r show ?thesis by simp
  qed
qed

lemma generate_sequences_collection:
  assumes "completion_order keys order"
    and "\<forall>c\<in>set keys. \<exists>seqs. generate_case fuel default_rng fresh shapes keys seed P q c = Some (Inr seqs)"
  shows "generate_sequences fuel default_rng fresh order shapes keys seed P q =
     Some (Inr (\<lambda>k. if k \<in> set keys
                     then Some (projr (the (generate_case fuel default_rng fresh shapes keys seed P q k)))
                     else None))"
proof -
  let ?task = "generate_case fuel default_rng fresh shapes keys seed P q"
  let ?xs = "map (\<lambda>i. (keys ! i, the (?task (keys ! i)))) order"
  have nn: "\<forall>c\<in>set keys. ?task c \<noteq> None" using assms(2) by auto
  have all: "\<forall>x\<in>set ?xs. snd x = Inr (projr (the (?task (fst x))))"
  proof
    fix x assume "x \<in> set ?xs"
    then obtain i where i: "i \<in> set order" "x = (keys ! i, the (?task (keys ! i)))" by auto
    have "keys ! i \<in> set keys" using completion_order_bound[OF assms(1) i(1)] by simp
    with assms(2) obtain seqs where "?task (keys ! i) = Some (Inr seqs)" by blast
    with i show "snd x = Inr (projr (the (?task (fst x))))" by simp
  qed
  have dom: "fst ` set ?xs = set keys"
  proof -
    have "fst ` set ?xs = (\<lambda>i. keys ! i) ` set order" by force
    also have "\<dots> = set keys"
      unfolding completion_order_set[OF assms(1)] by (auto simp: set_conv_nth)
    finally show ?thesis .
  qed
  show ?thesis
    unfolding generate_sequences_Some[OF nn assms(1)] collect_all_Inr[OF all] dom by simp
qed

subsection \<open>Qualities\<close>



lemma np_ok_quality: "np_ok (quality i)"
  by (simp add: quality_def np_ok_def)

lemma np_ok_add: "np_ok a \<Longrightarrow> np_ok b \<Longrightarrow> np_ok (np_add a b)"
  by (cases a; cases b) (simp_all add: np_ok_def)

lemma np_ok_sum: "\<forall>x\<in>set xs. np_ok x \<Longrightarrow> np_ok (np_sum xs)"
  by (induction xs) (simp_all add: np_ok_add, simp add: np_ok_def)


lemma weights_nth:
  "i < length sl \<Longrightarrow>
     weights n sl avail ! i =
       np_mask (if n = 1 then quality (sl ! i) else Fin 1) (sl ! i \<in> set avail)"
  by (simp add: weights_def)

lemma length_weights [simp]: "length (weights n sl avail) = length sl"
  by (simp add: weights_def)

lemma sample_Inr_range:
  assumes "sample P slices s = Inr s'" and "slices ! cur_m s = [0..<k]"
  shows "\<exists>sel avail'.
           set sel \<subseteq> {..<k} \<and> set sel \<subseteq> set (c_available s ! cur_m s) \<and>
           length sel = nat (drawn_n P s) \<and>
           mset avail' + mset sel = mset (c_available s ! cur_m s) \<and>
           c_available s' = (c_available s)[cur_m s := avail'] \<and>
           c_sequence s' = AList.update (cur_loop s, cur_m s)
              (dict_get (c_sequence s) (cur_loop s, cur_m s) @ sel) (c_sequence s) \<and>
           c_quality s' = fl_add (c_quality s) (array_sum (map quality sel))"
proof -
  let ?av = "c_available s ! cur_m s"
  let ?w = "weights (drawn_n P s) [0..<k] ?av"
  from assms obtain sel g avail' where
    ch: "choice [0..<k] (drawn_n P s) (map (\<lambda>w. np_div w (np_sum ?w)) ?w)
           ((gen s)\<lparr>normals := stl (normals (gen s))\<rparr>) = Inr (sel, g)"
    and rm: "remove_all sel ?av = Inr avail'"
    and s': "s' = s\<lparr>c_quality := fl_add (c_quality s)
                         (array_sum (map (\<lambda>i. (if drawn_n P s = 1 then ?w
                              else map quality [0..<k]) ! i) sel)),
                     c_sequence := AList.update (cur_loop s, cur_m s)
                         (dict_get (c_sequence s) (cur_loop s, cur_m s) @ sel) (c_sequence s),
                     c_available := (c_available s)[cur_m s := avail'],
                     gen := g\<rparr>"
    unfolding sample_unfold by (auto split: sum.splits prod.splits)
  from choice_Inr_sel(2)[OF ch] have r: "set sel \<subseteq> {..<k}" by auto
  note ms = remove_all_mset[OF rm]
  have sub: "set sel \<subseteq> set ?av"
  proof
    fix x assume "x \<in> set sel"
    then have "x \<in># mset avail' + mset sel" by simp
    then show "x \<in> set ?av" unfolding ms by simp
  qed
  have "map (\<lambda>i. (if drawn_n P s = 1 then ?w else map quality [0..<k]) ! i) sel = map quality sel"
  proof (rule map_cong[OF refl])
    fix i assume i: "i \<in> set sel"
    with r have "i < k" by auto
    moreover from i sub have "i \<in> set ?av" by auto
    ultimately show "(if drawn_n P s = 1 then ?w else map quality [0..<k]) ! i = quality i"
      by (simp add: weights_nth)
  qed
  with s' have q: "c_quality s' = fl_add (c_quality s) (array_sum (map quality sel))" by simp
  from r sub choice_Inr_sel(1)[OF ch] ms q show ?thesis
    unfolding s' by (intro exI[of _ sel] exI[of _ avail']) simp
qed

subsection \<open>A rule for invariants of the candidate loop\<close>

lemma while_candidate_invariant:
  assumes "while_candidate fuel P slices s = Some (Inr s')" and "I s"
    and step: "\<And>s s1. I s \<Longrightarrow> cur_m s < length (c_available s) \<Longrightarrow>
                 sample P slices s = Inr s1 \<Longrightarrow> I s1"
    and adv: "\<And>s. I s \<Longrightarrow> cur_m s < length (c_available s) \<Longrightarrow> I (advance s)"
  shows "I s'"
  using assms(1,2)
proof (induction fuel arbitrary: s)
  case 0
  then show ?case by simp
next
  case (Suc fuel)
  show ?case
  proof (cases "int (len_of_values (c_sequence s)) < seq_len P")
    case False
    with Suc.prems show ?thesis by simp
  next
    case True
    with Suc.prems(1) have m: "cur_m s < length (c_available s)"
      by (simp split: if_splits)
    show ?thesis
    proof (cases "0 < length (c_available s ! cur_m s)")
      case False
      with True m Suc.prems(1) have "while_candidate fuel P slices (advance s) = Some (Inr s')"
        by simp
      from Suc.IH[OF this adv[OF Suc.prems(2) m]] show ?thesis .
    next
      case avail: True
      with True m Suc.prems(1) obtain s1 where s1: "sample P slices s = Inr s1"
        and w: "while_candidate fuel P slices (advance s1) = Some (Inr s')"
        by (auto split: sum.splits)
      have m1: "cur_m s1 < length (c_available s1)"
        using sample_Inr[OF s1] m by auto
      from Suc.IH[OF w adv[OF step[OF Suc.prems(2) m s1] m1]] show ?thesis .
    qed
  qed
qed

lemma initial_pool_nth:
  "mm < length shp \<Longrightarrow> initial_pool shp ! mm = [0..<nat (shp ! mm)]"
  by (simp add: initial_pool_def)

lemma while_candidate_ok:
  assumes "while_candidate fuel P (initial_pool shp) s = Some (Inr s')"
    and "length (c_available s) = length shp" and "np_ok (c_quality s)"
  shows "np_ok (c_quality s')"
proof -
  let ?I = "\<lambda>s::cstate. length (c_available s) = length shp \<and> np_ok (c_quality s)"
  have "?I s'"
  proof (rule while_candidate_invariant[OF assms(1), of ?I])
    show "?I s" using assms(2,3) by simp
  next
    fix s s1 assume I: "?I s" and m: "cur_m s < length (c_available s)"
      and s1: "sample P (initial_pool shp) s = Inr s1"
    from I m have "initial_pool shp ! cur_m s = [0..<nat (shp ! cur_m s)]"
      by (simp add: initial_pool_nth)
    from sample_Inr_range[OF s1 this] obtain sel avail' where
      "c_available s1 = (c_available s)[cur_m s := avail']"
      "c_quality s1 = fl_add (c_quality s) (array_sum (map quality sel))" by blast
    with I show "?I s1" by (simp add: np_ok_fl_add np_ok_array_sum np_ok_quality)
  next
    fix s assume "?I s"
    then show "?I (advance s)" by simp
  qed
  then show ?thesis by simp
qed

lemma generate_candidate_ok:
  assumes "generate_candidate fuel P (initial_pool shp) c available g = Some (Inr (cand, g'))"
    and "length available = length shp"
  shows "np_ok (fst cand)"
proof -
  let ?s0 = "\<lparr>c_quality = Fin 0, c_sequence = [], c_available = available,
              cur_m = 0, cur_loop = 0, gen = g\<rparr>"
  from assms(1) obtain s where w: "while_candidate fuel P (initial_pool shp) ?s0 = Some (Inr s)"
    and eq: "fst cand = c_quality s"
    by (auto simp: generate_candidate_def split: option.splits sum.splits if_splits)
  from while_candidate_ok[OF w] assms(2) eq show ?thesis by (simp add: np_ok_def)
qed

subsection \<open>Sorting by distance\<close>

lemma np_less_trans: "np_less x y \<Longrightarrow> np_less y z \<Longrightarrow> np_less x z"
  by (cases x; cases y; cases z) simp_all

lemma np_le_trans: "np_le x y \<Longrightarrow> np_le y z \<Longrightarrow> np_le x z"
  unfolding np_le_def using np_less_trans by blast

lemma np_not_less: "x \<noteq> NaN \<Longrightarrow> y \<noteq> NaN \<Longrightarrow> \<not> np_less x y \<Longrightarrow> np_le y x"
  by (cases x; cases y) (auto simp: np_le_def)

lemma np_le_refl: "x \<noteq> NaN \<Longrightarrow> np_le x x"
  by (simp add: np_le_def)

lemma hd_insort_by:
  "hd (insort_by f x ys) = (if ys = [] then x else if np_less (f (hd ys)) (f x) then hd ys else x)"
  by (cases ys) simp_all

lemma sort_by_Cons: "sort_by f (x # xs) = insort_by f x (sort_by f xs)"
  by (simp add: sort_by_def)

lemma sort_by_Nil_iff [simp]: "sort_by f xs = [] \<longleftrightarrow> xs = []"
  using set_sort_by[of f xs] by (metis set_empty)

lemma first_minimum:
  assumes "xs \<noteq> []" and "\<forall>x\<in>set xs. f x \<noteq> NaN"
  shows "\<exists>k<length xs. hd (sort_by f xs) = xs ! k \<and>
           (\<forall>j<length xs. np_le (f (xs ! k)) (f (xs ! j))) \<and>
           (\<forall>j<k. np_less (f (xs ! k)) (f (xs ! j)))"
  using assms
proof (induction xs)
  case Nil
  then show ?case by simp
next
  case (Cons x xs)
  have fx: "f x \<noteq> NaN" using Cons.prems by simp
  show ?case
  proof (cases "xs = []")
    case True
    with fx show ?thesis by (simp add: sort_by_def np_le_refl)
  next
    case False
    with Cons obtain k where k: "k < length xs" "hd (sort_by f xs) = xs ! k"
      and mn: "\<forall>j<length xs. np_le (f (xs ! k)) (f (xs ! j))"
      and fst: "\<forall>j<k. np_less (f (xs ! k)) (f (xs ! j))" by auto
    have fk: "f (xs ! k) \<noteq> NaN" using Cons.prems k(1) by simp
    have hd: "hd (sort_by f (x # xs)) = (if np_less (f (xs ! k)) (f x) then xs ! k else x)"
      using False k(2) by (simp add: sort_by_Cons hd_insort_by)
    show ?thesis
    proof (cases "np_less (f (xs ! k)) (f x)")
      case True
      have "\<forall>j<length (x # xs). np_le (f ((x # xs) ! Suc k)) (f ((x # xs) ! j))"
      proof (intro allI impI)
        fix j assume "j < length (x # xs)"
        then show "np_le (f ((x # xs) ! Suc k)) (f ((x # xs) ! j))"
          using True mn by (cases j) (simp_all add: np_le_def)
      qed
      moreover have "\<forall>j<Suc k. np_less (f ((x # xs) ! Suc k)) (f ((x # xs) ! j))"
      proof (intro allI impI)
        fix j assume "j < Suc k"
        then show "np_less (f ((x # xs) ! Suc k)) (f ((x # xs) ! j))"
          using True fst by (cases j) simp_all
      qed
      moreover have "hd (sort_by f (x # xs)) = (x # xs) ! Suc k" using hd True by simp
      ultimately show ?thesis using k(1) by (intro exI[of _ "Suc k"]) simp
    next
      case nl: False
      from np_not_less[OF fk fx nl] have le: "np_le (f x) (f (xs ! k))" .
      have "\<forall>j<length (x # xs). np_le (f ((x # xs) ! 0)) (f ((x # xs) ! j))"
      proof (intro allI impI)
        fix j assume "j < length (x # xs)"
        then show "np_le (f ((x # xs) ! 0)) (f ((x # xs) ! j))"
          using mn le fx by (cases j) (auto simp: np_le_refl intro: np_le_trans)
      qed
      moreover have "hd (sort_by f (x # xs)) = (x # xs) ! 0" using hd nl by simp
      ultimately show ?thesis by (intro exI[of _ 0]) simp
    qed
  qed
qed

lemma distance_not_NaN: "np_ok (fst cand) \<Longrightarrow> distance q cand \<noteq> NaN"
  by (cases "fst cand") (simp_all add: distance_def np_sub_def np_ok_def)

lemma no_farther_iff:
  "np_ok (fst c1) \<Longrightarrow> np_ok (fst c2) \<Longrightarrow>
     np_le (distance q c1) (distance q c2) = no_farther q (fst c1) (fst c2)"
  by (cases "fst c1"; cases "fst c2") (auto simp: distance_def np_sub_def np_le_def np_ok_def)

lemma nearer_iff:
  "np_ok (fst c1) \<Longrightarrow> np_ok (fst c2) \<Longrightarrow>
     np_less (distance q c1) (distance q c2) = nearer q (fst c1) (fst c2)"
  by (cases "fst c1"; cases "fst c2") (auto simp: distance_def np_sub_def np_ok_def)

subsection \<open>The quality beyond index 64\<close>

lemma quality_65: "quality 65 = Fin (- (1 / 2 ^ 63))"
  by (simp add: quality_def np_power2_def)

lemma quality_66: "quality 66 = PInf"
  by (simp add: quality_def np_power2_def)

lemma np_sum_NaN: "NaN \<in> set ws \<Longrightarrow> np_sum ws = NaN"
proof (induction ws)
  case Nil
  then show ?case by simp
next
  case (Cons w ws)
  then show ?case by (cases w) auto
qed

lemma np_sum_PInf: "PInf \<in> set ws \<Longrightarrow> np_sum ws = PInf \<or> np_sum ws = NaN"
proof (induction ws)
  case Nil
  then show ?case by simp
next
  case (Cons w ws)
  then show ?case by (cases w; cases "np_sum ws") auto
qed

lemma choice_NaN: "NaN \<in> set p \<Longrightarrow> choice a sz p g = Inl ValueError"
  by (simp add: choice_def np_sum_NaN)

lemma sample_overflow:
  assumes "slices ! cur_m s = [0..<k]" and "66 < k"
    and "66 \<in> set (c_available s ! cur_m s)" and "drawn_n P s = 1"
  shows "sample P slices s = Inl ValueError"
proof -
  let ?w = "weights 1 [0..<k] (c_available s ! cur_m s)"
  have "?w ! 66 = PInf" using assms(2,3) by (simp add: weights_nth quality_66)
  moreover have "66 < length ?w" using assms(2) by simp
  ultimately have mem: "PInf \<in> set ?w" by (metis nth_mem)
  from np_sum_PInf[OF mem] have "np_div PInf (np_sum ?w) = NaN" by auto
  with mem have "NaN \<in> set (map (\<lambda>w. np_div w (np_sum ?w)) ?w)" by force
  from choice_NaN[OF this] show ?thesis
    unfolding sample_unfold assms(1,4) by simp
qed

subsection \<open>A draw that succeeds\<close>







subsection \<open>Termination with one modality\<close>






subsection \<open>The candidates of a single modality\<close>
























subsection \<open>The run of five slices on draws that are all zero\<close>







subsection \<open>The example with a different first choice\<close>

lemma ex_normal': "normal 2 ex_rng' = (2, ex_rng')"
  by (simp add: normal_def ex_rng'_def)

lemma ex_sample1':
  "sample ex_P [[0, Suc 0]]
     \<lparr>c_quality = Fin 0, c_sequence = [], c_available = [[0, Suc 0]],
      cur_m = 0, cur_loop = 0, gen = ex_rng'\<rparr> =
   Inr \<lparr>c_quality = Fin (1 / 2), c_sequence = [((0, 0), [Suc 0])], c_available = [[0]],
        cur_m = 0, cur_loop = 0, gen = ex_rng\<rparr>"
proof -
  have n: "n_slices_of ex_P (Suc (Suc 0)) 0 2 = 1"
    by (simp add: n_slices_of_def ex_P_def np_clip_def np_round_2)
  have ch: "choice [0, Suc 0] 1 [Fin (1 / 3), Fin (2 / 3)] ex_rng' = Inr ([Suc 0], ex_rng)"
    by (simp add: choice_def ex_rng'_def ex_rng_def)
  have m: "mean_slices_per_mha ex_P = 2" by (simp add: ex_P_def)
  show ?thesis
    unfolding sample_def
    by (simp add: ex_normal' m n len_of_values_def quality_0 quality_1 ch dict_get_def
        array_sum_def pairwise_sum_short fl64_half)
qed

lemma ex_candidate1':
  "generate_candidate (Suc (Suc fuel)) ex_P [[0, Suc 0]] ''a'' [[0, Suc 0]] ex_rng' =
     Some (Inr ((Fin (1 / 2), ex_seq2, [[0]]), ex_rng))"
  by (simp add: generate_candidate_def ex_sample1' advance_def ex_seq2_def)
    (simp add: ex_P_def len_of_values_def)

lemma ex_candidates':
  "candidates 100 (Suc (Suc fuel)) ex_P [[0, Suc 0]] ''a'' [[0, Suc 0]] ex_rng' =
     Some (Inr ((Fin (1 / 2), ex_seq2, [[0]]) # replicate 99 (Fin (1 / 4), ex_seq1, [[Suc 0]]),
                ex_rng))"
proof -
  have r: "candidates 99 (Suc (Suc fuel)) ex_P [[0, Suc 0]] ''a'' [[0, Suc 0]] ex_rng =
     Some (Inr (replicate 99 (Fin (1 / 4), ex_seq1, [[Suc 0]]), ex_rng))"
    by (rule candidates_same[OF ex_candidate1])
  have "candidates (Suc 99) (Suc (Suc fuel)) ex_P [[0, Suc 0]] ''a'' [[0, Suc 0]] ex_rng' =
     Some (Inr ((Fin (1 / 2), ex_seq2, [[0]]) # replicate 99 (Fin (1 / 4), ex_seq1, [[Suc 0]]),
                ex_rng))"
    by (subst candidates.simps(2)) (simp add: ex_candidate1' r)
  then show ?thesis by simp
qed

section \<open>The claims\<close>

subsection \<open>C1: every accepted sequence has exactly \<open>seq_len\<close> slices\<close>

text \<open>
  Claim C1. For a sequence length that is not negative, \<open>generate_sequences\<close> never ends
  in the \<open>AssertionError\<close> of the candidate-length assertion, and in every collection it
  returns, every sequence of every case holds exactly \<open>seq_len\<close> slice indices, summed
  over all its \<open>(round, modality)\<close> entries.
\<close>

theorem accepted_sequence_has_seq_len:
  assumes "0 \<le> seq_len P" and "completion_order keys order"
  shows "generate_sequences fuel default_rng fresh order shapes keys seed P q
           \<noteq> Some (Inl AssertionError) \<and>
         (\<forall>coll c seqs sq.
            generate_sequences fuel default_rng fresh order shapes keys seed P q = Some (Inr coll)
            \<longrightarrow> coll c = Some seqs \<longrightarrow> sq \<in> set seqs
            \<longrightarrow> int (len_of_values (entries sq)) = seq_len P)"
proof (intro conjI allI impI)
  show "generate_sequences fuel default_rng fresh order shapes keys seed P q
           \<noteq> Some (Inl AssertionError)"
    using generate_sequences_error[OF _ assms(2)] generate_case_error[OF _ assms(1)] by blast
next
  fix coll c seqs sq
  assume run: "generate_sequences fuel default_rng fresh order shapes keys seed P q = Some (Inr coll)"
    and c: "coll c = Some seqs" and sq: "sq \<in> set seqs"
  from generate_sequences_entry[OF run assms(2) c] generate_case_Inr obtain shp g where
    "greedy fuel fuel P (target q (seq_len P)) (initial_pool shp) c (initial_pool shp) [] g
       = Some (Inr seqs)" by blast
  from greedy_Inr[OF this] sq show "int (len_of_values (entries sq)) = seq_len P" by auto
qed

text \<open>The run of the example: one case of two slices, sequences of length one.\<close>

theorem accepted_sequence_has_seq_len_witness:
  "0 \<le> seq_len ex_P \<and> completion_order [''a''] [0] \<and>
   generate_sequences 3 (\<lambda>sd. ex_rng) (\<lambda>c. ex_rng) [0] ex_shapes [''a''] 0 ex_P 0
     = Some (Inr [''a'' \<mapsto> [ex_seq1, ex_seq2]]) \<and>
   [''a'' \<mapsto> [ex_seq1, ex_seq2]] ''a'' = Some [ex_seq1, ex_seq2] \<and>
   ex_seq2 \<in> set [ex_seq1, ex_seq2] \<and>
   int (len_of_values (entries ex_seq2)) = seq_len ex_P \<and>
   generate_sequences 3 (\<lambda>sd. ex_rng) (\<lambda>c. ex_rng) [0] ex_shapes [''a''] 0 ex_P 0
     \<noteq> Some (Inl AssertionError)"
proof -
  have h1: "0 \<le> seq_len ex_P" by (simp add: ex_P_def)
  have h2: "completion_order [''a''] [0]" by (simp add: completion_order_def)
  note th = accepted_sequence_has_seq_len[OF h1 h2, of 3 "\<lambda>sd. ex_rng" "\<lambda>c. ex_rng" ex_shapes 0 0]
  from conjunct2[OF th, rule_format, OF ex_run, of "''a''" "[ex_seq1, ex_seq2]" ex_seq2]
  have "int (len_of_values (entries ex_seq2)) = seq_len ex_P" by simp
  with conjunct1[OF th] ex_run h1 h2 show ?thesis by simp
qed

subsection \<open>C2: no slice index is used twice within a case\<close>

text \<open>
  Claim C2. In a returned collection, for every case and every modality \<open>mm\<close>, the slice
  indices of that modality over all accepted sequences of the case, taken in acceptance
  order, are pairwise distinct; in particular two different accepted sequences of the case
  share no index of the modality.
\<close>

theorem no_slice_reused:
  assumes "completion_order keys order"
    and "generate_sequences fuel default_rng fresh order shapes keys seed P q = Some (Inr coll)"
    and "coll c = Some seqs"
  shows "distinct (all_indices mm seqs) \<and>
         (\<forall>i j. i < j \<longrightarrow> j < length seqs \<longrightarrow>
            set (indices mm (entries (seqs ! i))) \<inter> set (indices mm (entries (seqs ! j))) = {})"
proof -
  from generate_sequences_entry[OF assms(2,1,3)] generate_case_Inr obtain shp g where
    "greedy fuel fuel P (target q (seq_len P)) (initial_pool shp) c (initial_pool shp) [] g
       = Some (Inr seqs)" by blast
  from greedy_Inr[OF this]
  have "mset (all_indices mm seqs) \<subseteq># mset (pool_at (initial_pool shp) mm)" by auto
  then have d: "distinct (all_indices mm seqs)"
    using distinct_pool_at_initial by (rule distinct_of_subset_mset)
  have "set (indices mm (entries (seqs ! i))) \<inter> set (indices mm (entries (seqs ! j))) = {}"
    if "i < j" "j < length seqs" for i j
    using distinct_concat_disjoint[OF d[unfolded all_indices_def], of i j] that by simp
  with d show ?thesis by blast
qed

text \<open>In the example the two accepted sequences take the indices 0 and 1.\<close>

theorem no_slice_reused_witness:
  "completion_order [''a''] [0] \<and>
   generate_sequences 3 (\<lambda>sd. ex_rng) (\<lambda>c. ex_rng) [0] ex_shapes [''a''] 0 ex_P 0
     = Some (Inr [''a'' \<mapsto> [ex_seq1, ex_seq2]]) \<and>
   [''a'' \<mapsto> [ex_seq1, ex_seq2]] ''a'' = Some [ex_seq1, ex_seq2] \<and>
   all_indices 0 [ex_seq1, ex_seq2] = [0, 1] \<and>
   distinct (all_indices 0 [ex_seq1, ex_seq2]) \<and>
   (0::nat) < 1 \<and> 1 < length [ex_seq1, ex_seq2] \<and>
   set (indices 0 (entries ([ex_seq1, ex_seq2] ! 0))) \<inter>
     set (indices 0 (entries ([ex_seq1, ex_seq2] ! 1))) = {}"
proof -
  have h1: "completion_order [''a''] [0]" by (simp add: completion_order_def)
  have h3: "[''a'' \<mapsto> [ex_seq1, ex_seq2]] ''a'' = Some [ex_seq1, ex_seq2]" by simp
  note th = no_slice_reused[OF h1 ex_run h3, of 0]
  have e: "all_indices 0 [ex_seq1, ex_seq2] = [0, 1]"
    by (simp add: all_indices_def indices_def ex_seq1_def ex_seq2_def)
  from conjunct2[OF th, rule_format, of 0 1]
  have "set (indices 0 (entries ([ex_seq1, ex_seq2] ! 0))) \<inter>
     set (indices 0 (entries ([ex_seq1, ex_seq2] ! 1))) = {}" by simp
  with conjunct1[OF th] h1 ex_run e show ?thesis by simp
qed

subsection \<open>C3: a seeded run is reproducible\<close>

text \<open>
  Claim C3. With a seed that is not negative, the collection a run returns does not depend
  on the entropy of the system nor on the order in which the tasks complete: a second run
  on the same Slice Source, in the same enumeration order, returns the same collection.
  When the case identifiers are distinct, the task of the case at position \<open>i\<close> runs on
  the generator of seed \<open>seed + i\<close> and on nothing else that is random.
\<close>

theorem seeded_run_reproducible:
  assumes "0 \<le> seed" and "completion_order keys order" and "completion_order keys order'"
  shows "(generate_sequences fuel default_rng fresh order shapes keys seed P q = Some (Inr coll) \<longrightarrow>
          generate_sequences fuel default_rng fresh' order' shapes keys seed P q = Some (Inr coll)) \<and>
         (distinct keys \<longrightarrow> (\<forall>i<length keys.
            generate_case fuel default_rng fresh shapes keys seed P q (keys ! i) =
              (case shapes (keys ! i) of
                 None \<Rightarrow> Some (Inl SliceSourceError)
               | Some shp \<Rightarrow>
                   greedy fuel fuel P (target q (seq_len P)) (initial_pool shp) (keys ! i)
                     (initial_pool shp) [] (default_rng (seed + int i)))))"
proof (intro conjI impI allI)
  assume run: "generate_sequences fuel default_rng fresh order shapes keys seed P q = Some (Inr coll)"
  have all: "\<forall>c\<in>set keys. \<exists>seqs.
      generate_case fuel default_rng fresh shapes keys seed P q c = Some (Inr seqs)"
    using generate_sequences_all_Inr[OF run assms(2)] by blast
  have same: "generate_case fuel default_rng fresh' shapes keys seed P q =
              generate_case fuel default_rng fresh shapes keys seed P q"
    using generate_case_seeded[OF assms(1)] by (intro ext) simp
  have all': "\<forall>c\<in>set keys. \<exists>seqs.
      generate_case fuel default_rng fresh' shapes keys seed P q c = Some (Inr seqs)"
    using all unfolding same .
  from run generate_sequences_collection[OF assms(2) all]
  have "coll = (\<lambda>k. if k \<in> set keys
                     then Some (projr (the (generate_case fuel default_rng fresh shapes keys seed P q k)))
                     else None)" by simp
  with generate_sequences_collection[OF assms(3) all']
  show "generate_sequences fuel default_rng fresh' order' shapes keys seed P q = Some (Inr coll)"
    unfolding same by simp
next
  fix i assume "distinct keys" "i < length keys"
  from seeds_nth[OF this] assms(1)
  show "generate_case fuel default_rng fresh shapes keys seed P q (keys ! i) =
              (case shapes (keys ! i) of
                 None \<Rightarrow> Some (Inl SliceSourceError)
               | Some shp \<Rightarrow>
                   greedy fuel fuel P (target q (seq_len P)) (initial_pool shp) (keys ! i)
                     (initial_pool shp) [] (default_rng (seed + int i)))"
    by (simp add: generate_case_def)
qed

text \<open>
  Two cases, the second without slices: the tasks complete in either order, and the second
  run draws another generator from the system.
\<close>

theorem seeded_run_reproducible_witness:
  "(0::int) \<le> 0 \<and> completion_order [''a'', ''b''] [0, 1] \<and> completion_order [''a'', ''b''] [1, 0] \<and>
   generate_sequences 3 (\<lambda>sd. ex_rng) (\<lambda>c. ex_rng) [0, 1] ex_shapes [''a'', ''b''] 0 ex_P 0
     = Some (Inr [''a'' \<mapsto> [ex_seq1, ex_seq2], ''b'' \<mapsto> []]) \<and>
   generate_sequences 3 (\<lambda>sd. ex_rng) (\<lambda>c. \<lparr>normals = sconst 1, uniforms = sconst 1\<rparr>) [1, 0]
       ex_shapes [''a'', ''b''] 0 ex_P 0
     = Some (Inr [''a'' \<mapsto> [ex_seq1, ex_seq2], ''b'' \<mapsto> []]) \<and>
   distinct [''a'', ''b''] \<and> (1::nat) < length [''a'', ''b''] \<and>
   generate_case 3 (\<lambda>sd. ex_rng) (\<lambda>c. ex_rng) ex_shapes [''a'', ''b''] 0 ex_P 0 ([''a'', ''b''] ! 1)
     = greedy 3 3 ex_P (target 0 (seq_len ex_P)) (initial_pool [0]) ''b'' (initial_pool [0]) []
         ex_rng"
proof -
  have t: "target 0 (seq_len ex_P) = 0" by (simp add: target_def np_clip_def)
  have a: "generate_case 3 (\<lambda>sd. ex_rng) (\<lambda>c. ex_rng) ex_shapes [''a'', ''b''] 0 ex_P 0 ''a''
     = Some (Inr [ex_seq1, ex_seq2])"
    using ex_greedy
    by (simp add: generate_case_def seeds_def ex_shapes_def initial_pool_def t numeral_3_eq_3
        upt_rec)
  have b: "generate_case 3 (\<lambda>sd. ex_rng) (\<lambda>c. ex_rng) ex_shapes [''a'', ''b''] 0 ex_P 0 ''b''
     = Some (Inr [])"
    by (simp add: generate_case_def seeds_def ex_shapes_def initial_pool_def numeral_3_eq_3
        upt_rec len_of_pool_def ex_P_def)
  have h1: "(0::int) \<le> 0" by simp
  have h2: "completion_order [''a'', ''b''] [0, 1]" by (simp add: completion_order_def upt_rec)
  have h3: "completion_order [''a'', ''b''] [1, 0]" by (simp add: completion_order_def upt_rec)
  have run: "generate_sequences 3 (\<lambda>sd. ex_rng) (\<lambda>c. ex_rng) [0, 1] ex_shapes [''a'', ''b''] 0 ex_P 0
     = Some (Inr [''a'' \<mapsto> [ex_seq1, ex_seq2], ''b'' \<mapsto> []])"
    by (simp add: generate_sequences_def a b)
  note th = seeded_run_reproducible[OF h1 h2 h3, of 3 "\<lambda>sd. ex_rng" "\<lambda>c. ex_rng" ex_shapes ex_P 0
      "[''a'' \<mapsto> [ex_seq1, ex_seq2], ''b'' \<mapsto> []]" "\<lambda>c. \<lparr>normals = sconst 1, uniforms = sconst 1\<rparr>"]
  from conjunct1[OF th] run
  have run': "generate_sequences 3 (\<lambda>sd. ex_rng) (\<lambda>c. \<lparr>normals = sconst 1, uniforms = sconst 1\<rparr>) [1, 0]
       ex_shapes [''a'', ''b''] 0 ex_P 0
     = Some (Inr [''a'' \<mapsto> [ex_seq1, ex_seq2], ''b'' \<mapsto> []])" by (rule mp)
  have d: "distinct [''a'', ''b'']" by simp
  from conjunct2[OF th, rule_format, OF d, of 1]
  have sd: "generate_case 3 (\<lambda>sd. ex_rng) (\<lambda>c. ex_rng) ex_shapes [''a'', ''b''] 0 ex_P 0 ([''a'', ''b''] ! 1)
     = greedy 3 3 ex_P (target 0 (seq_len ex_P)) (initial_pool [0]) ''b'' (initial_pool [0]) []
         ex_rng"
    by (simp add: ex_shapes_def)
  from h2 h3 run run' d sd show ?thesis by simp
qed

subsection \<open>C4: the closest candidate is selected\<close>

text \<open>
  Claim C4. In a round that is not stopped by exhaustion, the 100 candidates
  \<open>cands\<close> of the round are generated and one of them, at position \<open>k\<close>, decides the round:
  its quality is at least as close to the target \<open>q\<close> as the quality of every candidate
  of the batch, and strictly closer than the quality of every candidate generated before
  it, the distance of a quality \<open>a\<close> being \<open>|q - a|\<close> in float64. The round returns the
  sequences accepted so far when the quality of that candidate is below the target, and
  otherwise goes on with its sequence appended and its pool as the pool of the case.
\<close>

theorem closest_candidate_selected:
  assumes "\<not> int (len_of_pool available) < seq_len P"
    and "length available = length shp"
    and "candidates 100 ifuel P (initial_pool shp) c available g = Some (Inr (cands, g'))"
  shows "length cands = 100 \<and>
         (\<exists>k<100.
            (\<forall>j<100. no_farther q (fst (cands ! k)) (fst (cands ! j))) \<and>
            (\<forall>j<k. nearer q (fst (cands ! k)) (fst (cands ! j))) \<and>
            greedy (Suc fuel) ifuel P q (initial_pool shp) c available sequences g =
              (if np_less (fst (cands ! k)) (Fin q) then Some (Inr sequences)
               else greedy fuel ifuel P q (initial_pool shp) c (snd (snd (cands ! k)))
                      (sequences @ [fst (snd (cands ! k))]) g'))"
proof -
  note ci = candidates_Inr[OF assms(3)]
  from ci have len: "length cands = 100" by simp
  then have ne: "cands \<noteq> []" by auto
  have okq: "np_ok (fst cand)" if "cand \<in> set cands" for cand
  proof -
    from that ci obtain g1 g2 where
      "generate_candidate ifuel P (initial_pool shp) c available g1 = Some (Inr (cand, g2))"
      by blast
    from generate_candidate_ok[OF this assms(2)] show ?thesis .
  qed
  have ok: "\<forall>cand\<in>set cands. distance q cand \<noteq> NaN"
    using okq distance_not_NaN by blast
  from first_minimum[OF ne ok] len obtain k where k: "k < 100"
    and hd: "hd (sort_by (distance q) cands) = cands ! k"
    and mn: "\<forall>j<100. np_le (distance q (cands ! k)) (distance q (cands ! j))"
    and fst: "\<forall>j<k. np_less (distance q (cands ! k)) (distance q (cands ! j))" by auto
  have okn: "np_ok (fst (cands ! j))" if "j < 100" for j
    using that len by (intro okq) simp
  have mn': "\<forall>j<100. no_farther q (fst (cands ! k)) (fst (cands ! j))"
    using mn k okn by (simp add: no_farther_iff)
  have fst': "\<forall>j<k. nearer q (fst (cands ! k)) (fst (cands ! j))"
    using fst k okn by (simp add: nearer_iff)
  from ne obtain rest where srt: "sort_by (distance q) cands = cands ! k # rest"
    using hd by (cases "sort_by (distance q) cands") auto
  have "greedy (Suc fuel) ifuel P q (initial_pool shp) c available sequences g =
              (if np_less (fst (cands ! k)) (Fin q) then Some (Inr sequences)
               else greedy fuel ifuel P q (initial_pool shp) c (snd (snd (cands ! k)))
                      (sequences @ [fst (snd (cands ! k))]) g')"
    using assms(1,3) srt by simp
  with len k mn' fst' show ?thesis by blast
qed

text \<open>
  The first round of the example on a generator whose first choice differs: the first
  candidate takes slice 1, of quality 1/2, the other 99 take slice 0, of quality 1/4. With
  the target 0 the second candidate is the earliest of the closest ones: its sequence is
  accepted and its pool becomes the pool of the case.
\<close>

theorem closest_candidate_selected_witness:
  "\<not> int (len_of_pool [[0, 1]]) < seq_len ex_P \<and> length [[0, 1 :: nat]] = length [2 :: int] \<and>
   candidates 100 2 ex_P (initial_pool [2]) ''a'' [[0, 1]] ex_rng'
     = Some (Inr ((Fin (1 / 2), ex_seq2, [[0]]) # replicate 99 (Fin (1 / 4), ex_seq1, [[1]]),
                  ex_rng)) \<and>
   nearer 0 (Fin (1 / 4)) (Fin (1 / 2)) \<and> \<not> nearer 0 (Fin (1 / 4)) (Fin (1 / 4)) \<and>
   \<not> np_less (Fin (1 / 4)) (Fin 0) \<and>
   greedy (Suc 1) 2 ex_P 0 (initial_pool [2]) ''a'' [[0, 1]] [] ex_rng' =
     greedy 1 2 ex_P 0 (initial_pool [2]) ''a'' [[1]] [ex_seq1] ex_rng"
proof -
  let ?c0 = "(Fin (1 / 2), ex_seq2, [[0::nat]])"
  let ?c1 = "(Fin (1 / 4), ex_seq1, [[1::nat]])"
  let ?cs = "?c0 # replicate 99 ?c1"
  have ip: "initial_pool [2] = [[0, 1]]" by (simp add: initial_pool_def upt_rec)
  have h1: "\<not> int (len_of_pool [[0, 1]]) < seq_len ex_P" by (simp add: len_of_pool_def ex_P_def)
  have h2: "length [[0, 1 :: nat]] = length [2 :: int]" by simp
  have h3: "candidates 100 2 ex_P (initial_pool [2]) ''a'' [[0, 1]] ex_rng'
     = Some (Inr (?cs, ex_rng))"
    unfolding ip numeral_2_eq_2 One_nat_def by (rule ex_candidates')
  have n1: "nearer 0 (Fin (1 / 4)) (Fin (1 / 2))" by (simp add: fl64_half)
  have n2: "\<not> nearer 0 (Fin (1 / 4)) (Fin (1 / 4))" by simp
  have n3: "\<not> no_farther 0 (Fin (1 / 2)) (Fin (1 / 4))" by (simp add: fl64_half)
  have nth: "?cs ! j = (if j = 0 then ?c0 else ?c1)" if "j < 100" for j
    using that by (cases j) simp_all
  from closest_candidate_selected[OF h1 h2 h3, of 0 1 "[]"] obtain k where k: "k < 100"
    and mn: "\<forall>j<100. no_farther 0 (fst (?cs ! k)) (fst (?cs ! j))"
    and st: "\<forall>j<k. nearer 0 (fst (?cs ! k)) (fst (?cs ! j))"
    and gr: "greedy (Suc 1) 2 ex_P 0 (initial_pool [2]) ''a'' [[0, 1]] [] ex_rng' =
              (if np_less (fst (?cs ! k)) (Fin 0) then Some (Inr [])
               else greedy 1 2 ex_P 0 (initial_pool [2]) ''a'' (snd (snd (?cs ! k)))
                      ([] @ [fst (snd (?cs ! k))]) ex_rng)"
    by blast
  have k0: "k \<noteq> 0"
  proof
    assume k0: "k = 0"
    from mn have "(1::nat) < 100 \<longrightarrow> no_farther 0 (fst (?cs ! k)) (fst (?cs ! 1))" by (rule spec)
    with n3 show False by (simp add: k0)
  qed
  then have nk: "?cs ! k = ?c1" using nth[OF k] by simp
  from gr have "greedy (Suc 1) 2 ex_P 0 (initial_pool [2]) ''a'' [[0, 1]] [] ex_rng' =
     greedy 1 2 ex_P 0 (initial_pool [2]) ''a'' [[1]] [ex_seq1] ex_rng"
    unfolding nk by simp
  with h1 h2 h3 n1 n2 show ?thesis by simp
qed

subsection \<open>C5: an exhausted case produces nothing more\<close>

text \<open>
  Claim C5. A round of the per-case loop that starts with fewer than \<open>seq_len\<close> remaining
  slices returns the sequences accepted so far, whatever the state of the loop; and the pool
  of every candidate of a round is contained, modality by modality, in the pool the round
  started from and holds exactly \<open>seq_len\<close> slices fewer, so that the pool handed to the
  next round never grows.
\<close>

theorem exhausted_case_stops:
  "(int (len_of_pool available) < seq_len P \<longrightarrow>
      greedy (Suc fuel) ifuel P q slices c available sequences g = Some (Inr sequences)) \<and>
   (\<forall>cands g' cand mm.
      candidates 100 ifuel P slices c available g = Some (Inr (cands, g')) \<longrightarrow> cand \<in> set cands \<longrightarrow>
        mset (pool_at (snd (snd cand)) mm) \<subseteq># mset (pool_at available mm) \<and>
        int (len_of_pool (snd (snd cand))) + seq_len P = int (len_of_pool available))"
proof (intro conjI allI impI)
  assume "int (len_of_pool available) < seq_len P"
  then show "greedy (Suc fuel) ifuel P q slices c available sequences g = Some (Inr sequences)"
    by simp
next
  fix cands g' cand mm
  assume cs: "candidates 100 ifuel P slices c available g = Some (Inr (cands, g'))"
    and "cand \<in> set cands"
  with candidates_Inr[OF cs] obtain g1 g2 where
    gc: "generate_candidate ifuel P slices c available g1 =
           Some (Inr ((fst cand, fst (snd cand), snd (snd cand)), g2))" by auto
  from generate_candidate_Inr(4)[OF gc, of mm]
  show "mset (pool_at (snd (snd cand)) mm) \<subseteq># mset (pool_at available mm)"
    by (metis mset_subset_eq_add_left)
  from generate_candidate_total[OF gc]
  show "int (len_of_pool (snd (snd cand))) + seq_len P = int (len_of_pool available)" .
qed

text \<open>The last round and the first round of the example.\<close>

theorem exhausted_case_stops_witness:
  "int (len_of_pool [[]]) < seq_len ex_P \<and>
   greedy (Suc 0) 3 ex_P 0 [[0, 1]] ''a'' [[]] [ex_seq1, ex_seq2] ex_rng
     = Some (Inr [ex_seq1, ex_seq2]) \<and>
   candidates 100 2 ex_P [[0, 1]] ''a'' [[0, 1]] ex_rng
     = Some (Inr (replicate 100 (Fin (1 / 4), ex_seq1, [[1]]), ex_rng)) \<and>
   (Fin (1 / 4), ex_seq1, [[1]]) \<in> set (replicate 100 (Fin (1 / 4), ex_seq1, [[1]])) \<and>
   mset (pool_at [[1]] 0) \<subseteq># mset (pool_at [[0, 1]] 0) \<and>
   int (len_of_pool [[1]]) + seq_len ex_P = int (len_of_pool [[0, 1]])"
proof -
  have h1: "int (len_of_pool [[]]) < seq_len ex_P" by (simp add: len_of_pool_def ex_P_def)
  have h2: "candidates 100 2 ex_P [[0, 1]] ''a'' [[0, 1]] ex_rng
     = Some (Inr (replicate 100 (Fin (1 / 4), ex_seq1, [[1]]), ex_rng))"
    unfolding numeral_2_eq_2 One_nat_def by (rule candidates_same[OF ex_candidate1])
  have h3: "(Fin (1 / 4), ex_seq1, [[1]]) \<in> set (replicate 100 (Fin (1 / 4), ex_seq1, [[1]]))"
    by simp
  note th = exhausted_case_stops[of "[[0, 1]]" ex_P 0 2 0 "[[0, 1]]" "''a''" "[ex_seq1, ex_seq2]" ex_rng]
  note th' = exhausted_case_stops[of "[[]]" ex_P 0 3 0 "[[0, 1]]" "''a''" "[ex_seq1, ex_seq2]" ex_rng]
  from conjunct1[OF th', rule_format, OF h1]
  have a: "greedy (Suc 0) 3 ex_P 0 [[0, 1]] ''a'' [[]] [ex_seq1, ex_seq2] ex_rng
     = Some (Inr [ex_seq1, ex_seq2])" .
  from conjunct2[OF th, rule_format, OF h2 h3, of 0]
  have b: "mset (pool_at [[1]] 0) \<subseteq># mset (pool_at [[0, 1]] 0) \<and>
   int (len_of_pool [[1]]) + seq_len ex_P = int (len_of_pool [[0, 1]])" by simp
  from h1 a h2 h3 b show ?thesis by blast
qed

subsection \<open>C6: one modality of five slices\<close>




subsection \<open>C7: the drawn count is clamped\<close>

text \<open>
  Claim C7. In an iteration of the candidate loop (fewer than \<open>seq_len\<close> indices selected
  so far) whose modality has unconsumed indices, the drawn count \<open>n_slices\<close> is at most
  the minimum of the available count, \<open>max_slices_per_mha\<close> and the number of indices
  still needed, hence never more than \<open>max_slices_per_mha\<close> for any mean; it is not
  negative when \<open>max_slices_per_mha\<close> is not negative; and a draw that succeeds selects
  exactly \<open>n_slices\<close> indices.
\<close>

theorem drawn_count_clamped:
  assumes "int (len_of_values (c_sequence s)) < seq_len P"
    and "0 < length (c_available s ! cur_m s)"
  shows "(let n_slices = n_slices_of P (length (c_available s ! cur_m s))
                  (len_of_values (c_sequence s)) (fst (normal (mean_slices_per_mha P) (gen s)))
          in n_slices \<le> min (int (length (c_available s ! cur_m s)))
                          (min (max_slices_per_mha P)
                               (seq_len P - int (len_of_values (c_sequence s)))) \<and>
             n_slices \<le> max_slices_per_mha P \<and>
             (0 \<le> max_slices_per_mha P \<longrightarrow> 0 \<le> n_slices) \<and>
             (\<forall>s'. sample P slices s = Inr s' \<longrightarrow>
                0 \<le> n_slices \<and>
                int (len_of_values (c_sequence s')) =
                  int (len_of_values (c_sequence s)) + n_slices))"
proof -
  have d: "n_slices_of P (length (c_available s ! cur_m s))
             (len_of_values (c_sequence s)) (fst (normal (mean_slices_per_mha P) (gen s)))
           = drawn_n P s"
    by (simp add: drawn_n_def normal_def)
  have up: "drawn_n P s \<le> int (length (c_available s ! cur_m s))"
    "drawn_n P s \<le> max_slices_per_mha P"
    "drawn_n P s \<le> seq_len P - int (len_of_values (c_sequence s))"
    unfolding drawn_n_def by (rule n_slices_of_upper)+
  have lo: "0 \<le> drawn_n P s" if "0 \<le> max_slices_per_mha P"
    using that assms by (simp add: drawn_n_def n_slices_of_def np_clip_def Let_def)
  have sm: "0 \<le> drawn_n P s \<and>
      int (len_of_values (c_sequence s')) = int (len_of_values (c_sequence s)) + drawn_n P s"
    if "sample P slices s = Inr s'" for s'
    using sample_len[OF that] by simp
  from up lo sm show ?thesis unfolding d Let_def by simp
qed

text \<open>The first draw of the example: one slice out of two.\<close>

theorem drawn_count_clamped_witness:
  "int (len_of_values (c_sequence \<lparr>c_quality = Fin 0, c_sequence = [], c_available = [[0, 1]],
      cur_m = 0, cur_loop = 0, gen = ex_rng\<rparr>)) < seq_len ex_P \<and>
   0 < length (c_available \<lparr>c_quality = Fin 0, c_sequence = [], c_available = [[0, 1]],
      cur_m = 0, cur_loop = 0, gen = ex_rng\<rparr> ! 0) \<and>
   n_slices_of ex_P 2 0 2 = 1 \<and> (1::int) \<le> min 2 (min 3 (1 - 0)) \<and>
   0 \<le> max_slices_per_mha ex_P \<and>
   sample ex_P [[0, 1]] \<lparr>c_quality = Fin 0, c_sequence = [], c_available = [[0, 1]],
      cur_m = 0, cur_loop = 0, gen = ex_rng\<rparr> =
     Inr \<lparr>c_quality = Fin (1 / 4), c_sequence = [((0, 0), [0])], c_available = [[1]],
          cur_m = 0, cur_loop = 0, gen = ex_rng\<rparr> \<and>
   int (len_of_values [((0::nat, 0::nat), [0::nat])]) = int (len_of_values ([] :: seq_dict)) + 1"
proof -
  let ?s = "\<lparr>c_quality = Fin 0, c_sequence = [], c_available = [[0, 1]],
      cur_m = 0, cur_loop = 0, gen = ex_rng\<rparr>"
  have h1: "int (len_of_values (c_sequence ?s)) < seq_len ex_P"
    by (simp add: len_of_values_def ex_P_def)
  have h2: "0 < length (c_available ?s ! cur_m ?s)" by simp
  have n: "n_slices_of ex_P 2 0 2 = 1"
    by (simp add: n_slices_of_def ex_P_def np_clip_def np_round_2)
  have sm: "sample ex_P [[0, 1]] ?s =
     Inr \<lparr>c_quality = Fin (1 / 4), c_sequence = [((0, 0), [0])], c_available = [[1]],
          cur_m = 0, cur_loop = 0, gen = ex_rng\<rparr>"
    using ex_sample1 by simp
  have m: "mean_slices_per_mha ex_P = 2" "max_slices_per_mha ex_P = 3" by (simp_all add: ex_P_def)
  from drawn_count_clamped[OF h1 h2, of "[[0, 1]]"] sm h1
  show ?thesis
    by (simp add: ex_normal m n Let_def len_of_values_def)
qed

subsection \<open>C8: the quality of a slice\<close>

text \<open>
  Claim C8 says that the quality of the slice at index \<open>i\<close> is \<open>2^-|i - 2|\<close>. It is, up
  to index 64 (lemma \<open>quality_small\<close>). From index 65 on the power of two is computed in
  64-bit integers and wraps: at index 65 the quality is negative, at index 66 the divisor
  is zero and the quality is infinite.
\<close>

theorem quality_wraps_at_65:
  "quality 65 = Fin (- (1 / 2 ^ 63)) \<and> quality 66 = PInf \<and>
   quality 65 \<noteq> Fin (qval 65) \<and> quality 66 \<noteq> Fin (qval 66)"
  by (simp add: quality_65 quality_66 qval_def)

subsection \<open>C9: a failed task fails the call\<close>

text \<open>
  Claim C9. When the task of some case raises and every task ends, the call raises: its
  result is the error of a failed task (the first one in completion order), never a
  collection, complete or partial; it is the error of that case when no other case fails.
  Each case is run once, so nothing is retried. (When some task does not end, neither does
  the call: lemma \<open>generate_sequences_None\<close>.)
\<close>

theorem failed_task_fails_call:
  assumes "completion_order keys order" and "c \<in> set keys"
    and "generate_case fuel default_rng fresh shapes keys seed P q c = Some (Inl e)"
    and "\<forall>c'\<in>set keys. generate_case fuel default_rng fresh shapes keys seed P q c' \<noteq> None"
  shows "(\<exists>c'\<in>set keys. \<exists>e'.
            generate_case fuel default_rng fresh shapes keys seed P q c' = Some (Inl e') \<and>
            generate_sequences fuel default_rng fresh order shapes keys seed P q = Some (Inl e')) \<and>
         ((\<forall>c'\<in>set keys. \<forall>e'.
             generate_case fuel default_rng fresh shapes keys seed P q c' = Some (Inl e') \<longrightarrow> e' = e)
           \<longrightarrow> generate_sequences fuel default_rng fresh order shapes keys seed P q = Some (Inl e))"
  using some_task_failed[OF assms] by metis

text \<open>The example with a second case that the Slice Source does not know.\<close>

theorem failed_task_fails_call_witness:
  "completion_order [''a'', ''c''] [0, 1] \<and> ''c'' \<in> set [''a'', ''c''] \<and>
   generate_case 3 (\<lambda>sd. ex_rng) (\<lambda>c. ex_rng) ex_shapes [''a'', ''c''] 0 ex_P 0 ''c''
     = Some (Inl SliceSourceError) \<and>
   generate_case 3 (\<lambda>sd. ex_rng) (\<lambda>c. ex_rng) ex_shapes [''a'', ''c''] 0 ex_P 0 ''a''
     = Some (Inr [ex_seq1, ex_seq2]) \<and>
   generate_sequences 3 (\<lambda>sd. ex_rng) (\<lambda>c. ex_rng) [0, 1] ex_shapes [''a'', ''c''] 0 ex_P 0
     = Some (Inl SliceSourceError)"
proof -
  have t: "target 0 (seq_len ex_P) = 0" by (simp add: target_def np_clip_def)
  have a: "generate_case 3 (\<lambda>sd. ex_rng) (\<lambda>c. ex_rng) ex_shapes [''a'', ''c''] 0 ex_P 0 ''a''
     = Some (Inr [ex_seq1, ex_seq2])"
    using ex_greedy
    by (simp add: generate_case_def seeds_def ex_shapes_def initial_pool_def t numeral_3_eq_3
        upt_rec)
  have c: "generate_case 3 (\<lambda>sd. ex_rng) (\<lambda>c. ex_rng) ex_shapes [''a'', ''c''] 0 ex_P 0 ''c''
     = Some (Inl SliceSourceError)"
    by (simp add: generate_case_def seeds_def ex_shapes_def upt_rec)
  have h1: "completion_order [''a'', ''c''] [0, 1]" by (simp add: completion_order_def upt_rec)
  have h2: "''c'' \<in> set [''a'', ''c'']" by simp
  have h4: "\<forall>c'\<in>set [''a'', ''c''].
      generate_case 3 (\<lambda>sd. ex_rng) (\<lambda>c. ex_rng) ex_shapes [''a'', ''c''] 0 ex_P 0 c' \<noteq> None"
    using a c by simp
  have only: "\<forall>c'\<in>set [''a'', ''c'']. \<forall>e'.
      generate_case 3 (\<lambda>sd. ex_rng) (\<lambda>c. ex_rng) ex_shapes [''a'', ''c''] 0 ex_P 0 c' = Some (Inl e')
        \<longrightarrow> e' = SliceSourceError"
    using a c by simp
  from conjunct2[OF failed_task_fails_call[OF h1 h2 c h4]] only
  have "generate_sequences 3 (\<lambda>sd. ex_rng) (\<lambda>c. ex_rng) [0, 1] ex_shapes [''a'', ''c''] 0 ex_P 0
     = Some (Inl SliceSourceError)" by (rule mp)
  with h1 h2 a c show ?thesis by blast
qed

subsection \<open>C10: the draw of slices\<close>

text \<open>
  Claim C10 says that every draw is well defined. With a modality of 67 slices and the
  default parameters, a first normal draw that rounds to one slice makes the weights hold
  the infinite quality of slice 66, the probabilities hold NaN, and \<open>choice\<close> raise
  \<open>ValueError\<close>: the whole call raises.
\<close>

theorem draw_fails_on_long_modality:
  "generate_sequences (Suc fuel) (\<lambda>sd. low_rng) (\<lambda>c. low_rng) [0] (\<lambda>c. Some [67]) [''a''] 0
     default_P (1 / 2) = Some (Inl ValueError)"
proof -
  let ?s0 = "\<lparr>c_quality = Fin 0, c_sequence = [], c_available = initial_pool [67],
              cur_m = 0, cur_loop = 0, gen = low_rng\<rparr>"
  have ip: "initial_pool [67] = [[0..<67]]" by (simp add: initial_pool_def)
  have rnd: "np_round 1 = 1" by (simp add: np_round_def)
  have n: "drawn_n default_P ?s0 = 1"
    unfolding drawn_n_def ip
    by (simp add: n_slices_of_def default_P_def low_rng_def np_clip_def len_of_values_def rnd)
  have sm: "sample default_P (initial_pool [67]) ?s0 = Inl ValueError"
    by (rule sample_overflow[of _ _ 67]) (simp_all add: ip n[unfolded ip])
  have w: "while_candidate (Suc fuel) default_P (initial_pool [67]) ?s0 = Some (Inl ValueError)"
    using sm by (simp add: len_of_values_def default_P_def ip)
  have gc: "generate_candidate (Suc fuel) default_P (initial_pool [67]) ''a'' (initial_pool [67])
              low_rng = Some (Inl ValueError)"
    unfolding generate_candidate_def w by simp
  have cs: "candidates 100 (Suc fuel) default_P (initial_pool [67]) ''a'' (initial_pool [67])
              low_rng = Some (Inl ValueError)"
  proof -
    have "candidates (Suc 99) (Suc fuel) default_P (initial_pool [67]) ''a'' (initial_pool [67])
              low_rng = Some (Inl ValueError)"
      unfolding candidates.simps gc by simp
    then show ?thesis by simp
  qed
  have gr: "greedy (Suc fuel) (Suc fuel) default_P (target (1 / 2) (seq_len default_P))
              (initial_pool [67]) ''a'' (initial_pool [67]) [] low_rng = Some (Inl ValueError)"
    unfolding greedy.simps cs by (simp add: ip len_of_pool_def default_P_def)
  have "generate_case (Suc fuel) (\<lambda>sd. low_rng) (\<lambda>c. low_rng) (\<lambda>c. Some [67]) [''a''] 0
     default_P (1 / 2) ''a'' = Some (Inl ValueError)"
    using gr by (simp add: generate_case_def seeds_def)
  then show ?thesis by (simp add: generate_sequences_def)
qed

end
